theory Spec2Isabelle
  imports Main "HOL-Library.Multiset" "HOL-Library.List_Lexorder" "HOL-Library.Product_Lexorder"
begin

section \<open>The puzzle logic of main.py\<close>

text \<open>
  A state is a Python list (or tuple) of unbounded integers, modelled as \<open>int list\<close>.
  List positions are the results of \<open>list.index\<close> and of the arithmetic of
  \<open>neighbors\<close> on them, hence natural numbers. Every exception the source can raise is
  a value of \<open>error\<close>; a function that can raise returns \<open>error + 'a\<close>.
\<close>

type_synonym board = "int list"

datatype error = ValueError | KeyError | IndexError

definition GOAL :: board where
  "GOAL = [1, 2, 3, 4, 5, 6, 7, 8, 0]"

text \<open>\<^verbatim>\<open>GOAL_POS = {v: i for i, v in enumerate(GOAL)}\<close>: a later pair overrides an earlier one.\<close>

definition GOAL_POS :: "int \<rightharpoonup> nat" where
  "GOAL_POS = fold (\<lambda>(i, v) m. m(v \<mapsto> i)) (enumerate 0 GOAL) Map.empty"

text \<open>The two nested \<^verbatim>\<open>for\<close> loops of \<^verbatim>\<open>inversions\<close>, as two folds over the index ranges.\<close>

definition inversions :: "board \<Rightarrow> int" where
  "inversions state =
     (let arr = filter (\<lambda>x. x \<noteq> 0) state in
      fold (\<lambda>i inv. fold (\<lambda>j inv. if arr ! i > arr ! j then inv + 1 else inv)
                         [i + 1 ..< length arr] inv)
           [0 ..< length arr] 0)"

definition is_solvable_3x3 :: "board \<Rightarrow> bool" where
  "is_solvable_3x3 state = (inversions state mod 2 = 0)"

definition neighbors :: "nat \<Rightarrow> nat list" where
  "neighbors index =
     (let r = index div 3; c = index mod 3 in
      (if r > 0 then [index - 3] else []) @
      (if r < 2 then [index + 3] else []) @
      (if c > 0 then [index - 1] else []) @
      (if c < 2 then [index + 1] else []))"

text \<open>
  The loop of \<^verbatim>\<open>manhattan\<close> over \<^verbatim>\<open>enumerate(state)\<close>, with the running sum as an
  accumulator. \<^verbatim>\<open>GOAL_POS[v]\<close> raises KeyError for a value that is no tile of GOAL.
\<close>

fun manhattan_loop :: "(nat \<times> int) list \<Rightarrow> int \<Rightarrow> error + int" where
  "manhattan_loop [] dist = Inr dist"
| "manhattan_loop ((i, v) # rest) dist =
     (if v = 0 then manhattan_loop rest dist
      else case GOAL_POS v of
        None \<Rightarrow> Inl KeyError
      | Some gi \<Rightarrow>
          manhattan_loop rest
            (dist + (\<bar>int (i div 3) - int (gi div 3)\<bar> + \<bar>int (i mod 3) - int (gi mod 3)\<bar>)))"

definition manhattan :: "board \<Rightarrow> error + int" where
  "manhattan state = manhattan_loop (enumerate 0 state) 0"

text \<open>\<^verbatim>\<open>list.index(x)\<close>: the first position of \<open>x\<close>; \<open>None\<close> stands for the ValueError
  that Python raises when \<open>x\<close> does not occur.\<close>

primrec py_index :: "'a list \<Rightarrow> 'a \<Rightarrow> nat option" where
  "py_index [] x = None"
| "py_index (y # ys) x = (if y = x then Some 0 else map_option Suc (py_index ys x))"

text \<open>The exchange \<^verbatim>\<open>s[z], s[nb] = s[nb], s[z]\<close>: both right-hand values are read first.\<close>

definition swap_tiles :: "board \<Rightarrow> nat \<Rightarrow> nat \<Rightarrow> board" where
  "swap_tiles state z nb = (state[z := state ! nb])[nb := state ! z]"

subsection \<open>The A* search\<close>

text \<open>
  An entry of \<^verbatim>\<open>open_heap\<close> is the tuple \<open>(f, g, state)\<close>. Python compares tuples
  lexicographically, and so do the orders on pairs and lists used here. \<^verbatim>\<open>heapq\<close> keeps
  the entries in a binary heap; \<^verbatim>\<open>astar_solve\<close> only pushes, pops and tests for
  emptiness, \<^verbatim>\<open>heappop\<close> returns the least entry, and the order is total, so the
  popped value does not depend on the layout of the heap. The heap is therefore modelled
  as the list of its entries, from which \<open>heappop\<close> removes one least entry.
\<close>

type_synonym entry = "int \<times> int \<times> board"

definition heappush :: "entry list \<Rightarrow> entry \<Rightarrow> entry list" where
  "heappush h x = x # h"

definition heappop :: "entry list \<Rightarrow> entry \<times> entry list" where
  "heappop h = (min_list h, remove1 (min_list h) h)"

record astar_state =
  open_heap :: "entry list"
  g_cost :: "board \<rightharpoonup> int"
  parent :: "board \<rightharpoonup> board \<times> int"

text \<open>\<^verbatim>\<open>g_cost.get(s, 10**9)\<close>\<close>

definition g_cost_get :: "(board \<rightharpoonup> int) \<Rightarrow> board \<Rightarrow> int" where
  "g_cost_get gc s = (case gc s of None \<Rightarrow> 10 ^ 9 | Some g \<Rightarrow> g)"

text \<open>The body of \<^verbatim>\<open>for nb in neighbors(z)\<close> for one \<open>nb\<close>; \<^verbatim>\<open>state[nb]\<close> raises IndexError
  beyond the end of the state.\<close>

definition relax :: "board \<Rightarrow> int \<Rightarrow> nat \<Rightarrow> astar_state \<Rightarrow> nat \<Rightarrow> error + astar_state" where
  "relax state g z st nb =
     (if length state \<le> nb then Inl IndexError
      else
        let moved_tile = state ! nb;
            new_t = swap_tiles state z nb;
            new_g = g + 1
        in if new_g < g_cost_get (g_cost st) new_t
           then (case manhattan new_t of
                   Inl e \<Rightarrow> Inl e
                 | Inr h \<Rightarrow>
                     Inr (st\<lparr>g_cost := (g_cost st)(new_t \<mapsto> new_g),
                             parent := (parent st)(new_t \<mapsto> (state, moved_tile)),
                             open_heap := heappush (open_heap st) (new_g + h, new_g, new_t)\<rparr>))
           else Inr st)"

fun expand :: "board \<Rightarrow> int \<Rightarrow> nat \<Rightarrow> nat list \<Rightarrow> astar_state \<Rightarrow> error + astar_state" where
  "expand state g z [] st = Inr st"
| "expand state g z (nb # nbs) st =
     (case relax state g z st nb of
        Inl e \<Rightarrow> Inl e
      | Inr st' \<Rightarrow> expand state g z nbs st')"

text \<open>The loop \<^verbatim>\<open>while cur in parent\<close> that walks the parent links; it does not return
  when the links form a cycle, which is the value \<open>None\<close>.\<close>

partial_function (option) reconstruct ::
  "(board \<rightharpoonup> board \<times> int) \<Rightarrow> board \<Rightarrow> int list \<Rightarrow> int list option" where
  "reconstruct par cur moves =
     (case par cur of
        None \<Rightarrow> Some (rev moves)
      | Some (prev, moved) \<Rightarrow> reconstruct par prev (moves @ [moved]))"

text \<open>
  The main loop \<^verbatim>\<open>while open_heap\<close>. The result is \<open>Some (Inr (Some moves))\<close> for a
  returned move list, \<open>Some (Inr None)\<close> for the returned \<^verbatim>\<open>None\<close>, \<open>Some (Inl e)\<close> for
  a raised exception and \<open>None\<close> when the reconstruction does not return.
\<close>

function astar_loop :: "int \<Rightarrow> astar_state \<Rightarrow> int \<Rightarrow> (error + int list option) option" where
  "astar_loop max_expansions st expansions =
     (if open_heap st = [] then Some (Inr None)
      else
        let e = fst (heappop (open_heap st));
            st1 = st\<lparr>open_heap := snd (heappop (open_heap st))\<rparr>;
            g = fst (snd e);
            state = snd (snd e)
        in if g \<noteq> g_cost_get (g_cost st1) state then astar_loop max_expansions st1 expansions
           else if state = GOAL then
             map_option (\<lambda>moves. Inr (Some moves)) (reconstruct (parent st1) state [])
           else if expansions + 1 > max_expansions then Some (Inr None)
           else (case py_index state 0 of
                   None \<Rightarrow> Some (Inl ValueError)
                 | Some z \<Rightarrow>
                     (case expand state g z (neighbors z) st1 of
                        Inl err \<Rightarrow> Some (Inl err)
                      | Inr st2 \<Rightarrow> astar_loop max_expansions st2 (expansions + 1))))"
  by pat_completeness auto
termination
proof (relation "measures [\<lambda>(m, st, e). nat (m + 1 - e), \<lambda>(m, st, e). length (open_heap st)]")
  show "wf (measures [\<lambda>(m, st, e). nat (m + 1 - e), \<lambda>(m, st, e). length (open_heap st)])"
    by simp
next
  fix max_expansions :: int and st xa :: astar_state and expansions :: int
  assume ne: "open_heap st \<noteq> []"
    and xa: "xa = st\<lparr>open_heap := snd (heappop (open_heap st))\<rparr>"
  have "min_list (open_heap st) \<in> set (open_heap st)"
    using ne by (simp add: min_list_Min)
  then have "length (remove1 (min_list (open_heap st)) (open_heap st)) < length (open_heap st)"
    using ne by (simp add: length_remove1)
  then show "((max_expansions, xa, expansions), (max_expansions, st, expansions))
             \<in> measures [\<lambda>(m, st, e). nat (m + 1 - e), \<lambda>(m, st, e). length (open_heap st)]"
    by (simp add: heappop_def xa)
next
  fix max_expansions :: int and st b :: astar_state and expansions :: int
  assume "\<not> max_expansions < expansions + 1"
  then show "((max_expansions, b, expansions + 1), (max_expansions, st, expansions))
             \<in> measures [\<lambda>(m, st, e). nat (m + 1 - e), \<lambda>(m, st, e). length (open_heap st)]"
    by simp
qed

definition astar_solve :: "board \<Rightarrow> int \<Rightarrow> (error + int list option) option" where
  "astar_solve start max_expansions =
     (if start = GOAL then Some (Inr (Some []))
      else case manhattan start of
        Inl e \<Rightarrow> Some (Inl e)
      | Inr h \<Rightarrow>
          astar_loop max_expansions
            \<lparr>open_heap = heappush [] (h, 0, start), g_cost = [start \<mapsto> 0], parent = Map.empty\<rparr> 0)"

subsection \<open>Reading a state from text\<close>

text \<open>
  A Python string is a sequence of code points, here a list of natural numbers. What
  \<^verbatim>\<open>str.isspace\<close>, \<^verbatim>\<open>str.isdigit\<close> and \<^verbatim>\<open>int\<close> make of a code point is read off the
  character database of the interpreter; the tables below are those of Unicode 14.0
  (CPython 3.11). \<^verbatim>\<open>str.isspace\<close>, which \<^verbatim>\<open>strip\<close> and \<^verbatim>\<open>split\<close> use as well, holds for 29
  code points.
\<close>

definition whitespace_points :: "nat list" where
  "whitespace_points =
     [9, 10, 11, 12, 13, 28, 29, 30, 31, 32, 133, 160, 5760, 8192, 8193, 8194, 8195, 8196,
      8197, 8198, 8199, 8200, 8201, 8202, 8232, 8233, 8239, 8287, 12288]"

definition py_isspace :: "nat \<Rightarrow> bool" where
  "py_isspace c = (c \<in> set whitespace_points)"

text \<open>
  The decimal digits of every script come in runs of ten, from the digit zero to the digit
  nine; \<open>decimal_zeros\<close> lists the code point of each digit zero, and \<open>to_decimal\<close> is the
  value of a decimal digit.
\<close>

definition decimal_zeros :: "nat list" where
  "decimal_zeros =
     [48, 1632, 1776, 1984, 2406, 2534, 2662, 2790, 2918, 3046, 3174, 3302, 3430, 3558,
      3664, 3792, 3872, 4160, 4240, 6112, 6160, 6470, 6608, 6784, 6800, 6992, 7088, 7232,
      7248, 42528, 43216, 43264, 43472, 43504, 43600, 44016, 65296, 66720, 68912, 69734,
      69872, 69942, 70096, 70384, 70736, 70864, 71248, 71360, 71472, 71904, 72016, 72784,
      73040, 73120, 92768, 92864, 93008, 120782, 120792, 120802, 120812, 120822, 123200,
      123632, 125264, 130032]"

definition to_decimal :: "nat \<Rightarrow> nat option" where
  "to_decimal c = map_option (\<lambda>z. c - z) (find (\<lambda>z. z \<le> c \<and> c < z + 10) decimal_zeros)"

definition is_decimal :: "nat \<Rightarrow> bool" where
  "is_decimal c = (to_decimal c \<noteq> None)"

text \<open>\<^verbatim>\<open>str.isdigit\<close> holds for the decimal digits and for the digits of the ranges
  \<open>other_digits\<close> (superscripts, subscripts, circled digits and the like), which \<^verbatim>\<open>int\<close>
  does not read.\<close>

definition other_digits :: "(nat \<times> nat) list" where
  "other_digits =
     [(178, 179), (185, 185), (4969, 4977), (6618, 6618), (8304, 8304), (8308, 8313),
      (8320, 8329), (9312, 9320), (9332, 9340), (9352, 9360), (9450, 9450), (9461, 9469),
      (9471, 9471), (10102, 10110), (10112, 10120), (10122, 10130), (68160, 68163),
      (69216, 69224), (69714, 69722), (127232, 127242)]"

definition py_isdigit :: "nat \<Rightarrow> bool" where
  "py_isdigit c = (is_decimal c \<or> list_ex (\<lambda>(lo, hi). lo \<le> c \<and> c \<le> hi) other_digits)"

definition py_strip :: "nat list \<Rightarrow> nat list" where
  "py_strip s = rev (dropWhile py_isspace (rev (dropWhile py_isspace s)))"

text \<open>\<^verbatim>\<open>t.replace(sep, " ")\<close> for a separator of one character; 32 is the space.\<close>

definition py_replace :: "nat \<Rightarrow> nat list \<Rightarrow> nat list" where
  "py_replace sep s = map (\<lambda>c. if c = sep then 32 else c) s"

text \<open>\<^verbatim>\<open>str.split()\<close>: the maximal runs of characters that are no separators; \<open>cur\<close> is the
  run read so far.\<close>

fun split_on :: "(nat \<Rightarrow> bool) \<Rightarrow> nat list \<Rightarrow> nat list \<Rightarrow> nat list list" where
  "split_on sep cur [] = (if cur = [] then [] else [cur])"
| "split_on sep cur (c # cs) =
     (if sep c then (if cur = [] then split_on sep [] cs else cur # split_on sep [] cs)
      else split_on sep (cur @ [c]) cs)"

definition py_split :: "nat list \<Rightarrow> nat list list" where
  "py_split s = split_on py_isspace [] s"

text \<open>
  \<^verbatim>\<open>int(s)\<close>: white space around the number is skipped (all of \<^verbatim>\<open>str.isspace\<close> but the
  code points 28 to 31), then comes an optional sign (43 or 45) and then decimal digits of
  any script that single underscores (95) may separate; \<open>None\<close> stands for the ValueError.
  The interpreter also raises ValueError beyond 4300 digits (its default limit).
\<close>

definition int_isspace :: "nat \<Rightarrow> bool" where
  "int_isspace c = (py_isspace c \<and> \<not> (28 \<le> c \<and> c \<le> 31))"

fun int_body :: "bool \<Rightarrow> nat list \<Rightarrow> bool" where
  "int_body prev [] = prev"
| "int_body prev (c # cs) =
     (if is_decimal c then int_body True cs
      else if c = 95 \<and> prev then int_body False cs
      else False)"

definition decimal_value :: "nat list \<Rightarrow> int" where
  "decimal_value ds =
     foldl (\<lambda>acc c. 10 * acc + (case to_decimal c of None \<Rightarrow> 0 | Some d \<Rightarrow> int d)) 0 ds"

definition py_int :: "nat list \<Rightarrow> int option" where
  "py_int s =
     (let t = rev (dropWhile int_isspace (rev (dropWhile int_isspace s)));
          neg = (t \<noteq> [] \<and> hd t = 45);
          body = (if t \<noteq> [] \<and> (hd t = 45 \<or> hd t = 43) then tl t else t);
          ds = filter is_decimal body
      in if \<not> int_body False body \<or> length ds > 4300 then None
         else Some (if neg then - decimal_value ds else decimal_value ds))"

text \<open>
  \<^verbatim>\<open>parse_state\<close>: \<open>Inr None\<close> is the returned \<^verbatim>\<open>None\<close>. In the branch of nine digit
  characters \<^verbatim>\<open>int(ch)\<close> stands outside every \<^verbatim>\<open>try\<close>, so its ValueError leaves the
  function; in the other branch the ValueError is caught. 44 is the comma and 59 the
  semicolon.
\<close>

definition check_vals :: "int list \<Rightarrow> error + int list option" where
  "check_vals vals = (if sort vals \<noteq> map int [0 ..< 9] then Inr None else Inr (Some vals))"

definition parse_state :: "nat list \<Rightarrow> error + int list option" where
  "parse_state text =
     (let t = py_strip text in
      if t = [] then Inr None
      else if list_all py_isdigit t \<and> length t = 9 then
        (case those (map (\<lambda>ch. py_int [ch]) t) of
           None \<Rightarrow> Inl ValueError
         | Some vals \<Rightarrow> check_vals vals)
      else
        let t' = py_replace 59 (py_replace 44 t);
            parts = filter (\<lambda>p. p \<noteq> []) (py_split t')
        in if length parts \<noteq> 9 then Inr None
           else (case those (map py_int parts) of
                   None \<Rightarrow> Inr None
                 | Some vals \<Rightarrow> check_vals vals))"

text \<open>The code points of a text of Latin-1 characters.\<close>

definition code_points :: "string \<Rightarrow> nat list" where
  "code_points s = map of_char s"

subsection \<open>Moving a tile\<close>

text \<open>
  \<^verbatim>\<open>SlidingPuzzle._apply_move_by_tile_value\<close> on the current state (outside an
  animation): \<open>Inr None\<close> is the return that leaves the state as it is because the tile
  is not beside the blank, \<open>Inr (Some s)\<close> the state after the exchange, and
  \<^verbatim>\<open>list.index\<close> raises ValueError for a value that does not occur. The log line and
  the redrawing of the widgets are not modelled.
\<close>

definition apply_move_by_tile_value :: "board \<Rightarrow> int \<Rightarrow> error + board option" where
  "apply_move_by_tile_value state tile_value =
     (case py_index state 0 of
        None \<Rightarrow> Inl ValueError
      | Some zero_idx \<Rightarrow>
          (case py_index state tile_value of
             None \<Rightarrow> Inl ValueError
           | Some tile_idx \<Rightarrow>
               if tile_idx \<notin> set (neighbors zero_idx) then Inr None
               else Inr (Some (swap_tiles state zero_idx tile_idx))))"

text \<open>Replaying a move list from a state, one tile after the other; the replay stops
  at the first move that is refused or raises.\<close>

fun replay :: "board \<Rightarrow> int list \<Rightarrow> error + board option" where
  "replay state [] = Inr (Some state)"
| "replay state (m # ms) =
     (case apply_move_by_tile_value state m of
        Inl e \<Rightarrow> Inl e
      | Inr None \<Rightarrow> Inr None
      | Inr (Some state') \<Rightarrow> replay state' ms)"

section \<open>Boards\<close>

text \<open>A Board of the specification: each of 0, ..., 8 exactly once.\<close>

definition is_board :: "board \<Rightarrow> bool" where
  "is_board b = (length b = 9 \<and> distinct b \<and> set b = {0..8})"

text \<open>The distance of the cell \<open>i\<close> from the goal cell of the tile \<open>v\<close>; the blank counts 0.\<close>

definition tile_dist :: "nat \<Rightarrow> int \<Rightarrow> int" where
  "tile_dist i v =
     (if v = 0 then 0
      else \<bar>int (i div 3) - int (nat (v - 1) div 3)\<bar> + \<bar>int (i mod 3) - int (nat (v - 1) mod 3)\<bar>)"

text \<open>The sum that \<open>manhattan\<close> returns on a board (\<open>manhattan_val\<close> below).\<close>

definition manhattan_val :: "board \<Rightarrow> int" where
  "manhattan_val b = (\<Sum>i<length b. tile_dist i (b ! i))"

text \<open>Inversions counted by recursion over the list: \<open>inv_count\<close> counts, for each
  element, the smaller elements behind it; \<open>cross xs ys\<close> counts the pairs of an element
  of \<open>xs\<close> and a smaller element of \<open>ys\<close>.\<close>

fun inv_count :: "int list \<Rightarrow> int" where
  "inv_count [] = 0"
| "inv_count (x # xs) = int (length (filter (\<lambda>y. x > y) xs)) + inv_count xs"

definition cross :: "int list \<Rightarrow> int list \<Rightarrow> int" where
  "cross xs ys = (\<Sum>x\<leftarrow>xs. int (length (filter (\<lambda>y. x > y) ys)))"

text \<open>A Board is reachable from another when replaying some move list, with every move
  accepted, leads from the one to the other.\<close>

definition reachable :: "board \<Rightarrow> board \<Rightarrow> bool" where
  "reachable b b' = (\<exists>ms. replay b ms = Inr (Some b'))"

text \<open>A walk of the blank: from the cell \<open>z\<close> through the listed cells, each beside the one
  before; \<open>walk\<close> exchanges the blank with the tile of each cell in turn.\<close>

fun legal_walk :: "nat \<Rightarrow> nat list \<Rightarrow> bool" where
  "legal_walk z [] = True"
| "legal_walk z (nb # nbs) = (nb \<in> set (neighbors z) \<and> legal_walk nb nbs)"

fun walk :: "board \<Rightarrow> nat \<Rightarrow> nat list \<Rightarrow> board" where
  "walk b z [] = b"
| "walk b z (nb # nbs) = walk (swap_tiles b z nb) nb nbs"

text \<open>The inversions as the specification counts them: the pairs of positions \<open>i < j\<close>
  of a sequence whose values are in descending order.\<close>

definition inversion_pairs :: "int list \<Rightarrow> (nat \<times> nat) set" where
  "inversion_pairs arr = {(i, j). i < j \<and> j < length arr \<and> arr ! i > arr ! j}"

text \<open>
  The two textual forms of the specification, for a text \<open>t\<close> and the values \<open>vals\<close> it
  denotes: nine decimal digits, or nine integer tokens between white space, commas and
  semicolons; in both the values are a Board.
\<close>

definition is_separator :: "nat \<Rightarrow> bool" where
  "is_separator c = (py_isspace c \<or> c = 44 \<or> c = 59)"

definition digit_values :: "nat list \<Rightarrow> int list option" where
  "digit_values t = those (map (\<lambda>c. map_option int (to_decimal c)) t)"

definition digits_form :: "nat list \<Rightarrow> int list \<Rightarrow> bool" where
  "digits_form t vals = (length t = 9 \<and> digit_values t = Some vals \<and> is_board vals)"

definition tokens_form :: "nat list \<Rightarrow> int list \<Rightarrow> bool" where
  "tokens_form t vals =
     (length (split_on is_separator [] t) = 9
      \<and> those (map py_int (split_on is_separator [] t)) = Some vals \<and> is_board vals)"

text \<open>The texts on which the branch of nine digit characters meets a digit that \<^verbatim>\<open>int\<close>
  does not read.\<close>

definition unread_digit :: "nat list \<Rightarrow> bool" where
  "unread_digit t = (length t = 9 \<and> list_all py_isdigit t \<and> \<not> list_all is_decimal t)"

subsubsection \<open>Invariants of the search\<close>

text \<open>
  What the main loop keeps true of \<^verbatim>\<open>g_cost\<close> and \<^verbatim>\<open>parent\<close>: the start state has cost 0 and
  no parent; a parent link is a legal move from a state of smaller cost; every state with a
  cost is a board and, unless it is the start state, has a parent; the states of the heap
  have a cost.
\<close>

definition tree_inv :: "board \<Rightarrow> astar_state \<Rightarrow> bool" where
  "tree_inv start st \<longleftrightarrow>
     g_cost st start = Some 0 \<and> parent st start = None \<and>
     (\<forall>s p tile. parent st s = Some (p, tile) \<longrightarrow>
        is_board p \<and> apply_move_by_tile_value p tile = Inr (Some s) \<and>
        (\<exists>gp gs. g_cost st p = Some gp \<and> g_cost st s = Some gs \<and> gp + 1 \<le> gs)) \<and>
     (\<forall>s g. g_cost st s = Some g \<longrightarrow> 0 \<le> g \<and> is_board s \<and> (s \<noteq> start \<longrightarrow> parent st s \<noteq> None)) \<and>
     (\<forall>e \<in> set (open_heap st). g_cost st (snd (snd e)) \<noteq> None)"

text \<open>Exchanging the tiles 1 and 2 of a board, a device for counting the boards of each
  parity.\<close>

definition exchange12 :: "int \<Rightarrow> int" where
  "exchange12 v = (if v = 1 then 2 else if v = 2 then 1 else v)"

text \<open>
  What the main loop keeps true of the heap, for the set \<open>C\<close> of the states expanded so far
  and a set \<open>D\<close> that is \<open>C\<close>, or \<open>C\<close> and the state being expanded: the entries of the heap
  are distinct; an entry \<open>(f, g, s)\<close> has \<open>f = g + h(s)\<close> and \<open>g\<close> is no less than the cost
  of \<open>s\<close>; a state with a cost outside \<open>D\<close> has the entry of its cost in the heap; an
  expanded state is not \<^const>\<open>GOAL\<close>, its cost is the least length of a move list that leads
  to it, the heap holds no entry of that cost for it, and the states one move away have a
  cost that is at most one more; no cost exceeds the number of states in \<open>D\<close>.
\<close>

definition opt_inv :: "board \<Rightarrow> board set \<Rightarrow> board set \<Rightarrow> astar_state \<Rightarrow> bool" where
  "opt_inv start C D st \<longleftrightarrow>
     distinct (open_heap st) \<and>
     (\<forall>f g s. (f, g, s) \<in> set (open_heap st) \<longrightarrow>
        f = g + manhattan_val s \<and> (\<exists>g'. g_cost st s = Some g' \<and> g' \<le> g)) \<and>
     (\<forall>s g. g_cost st s = Some g \<longrightarrow> s \<notin> D \<longrightarrow>
        (g + manhattan_val s, g, s) \<in> set (open_heap st)) \<and>
     (\<forall>s \<in> C. s \<noteq> GOAL \<and>
        (\<exists>g. g_cost st s = Some g \<and>
           (\<forall>ms. replay start ms = Inr (Some s) \<longrightarrow> g \<le> int (length ms)) \<and>
           (\<forall>f. (f, g, s) \<notin> set (open_heap st)) \<and>
           (\<forall>z nb. py_index s 0 = Some z \<longrightarrow> nb \<in> set (neighbors z) \<longrightarrow>
              (\<exists>gt. g_cost st (swap_tiles s z nb) = Some gt \<and> gt \<le> g + 1)))) \<and>
     (\<forall>s g. g_cost st s = Some g \<longrightarrow> g \<le> int (card D))"

section \<open>The heuristic as a sum of tile distances\<close>

lemma GOAL_POS_eq:
  "GOAL_POS v = (if v = 0 then Some 8 else if 1 \<le> v \<and> v \<le> 8 then Some (nat (v - 1)) else None)"
  by (auto simp: GOAL_POS_def GOAL_def enumerate_eq_zip upt_rec)

lemma manhattan_loop_sum:
  "\<forall>p \<in> set xs. 0 \<le> snd p \<and> snd p \<le> 8 \<Longrightarrow>
   manhattan_loop xs acc = Inr (acc + sum_list (map (\<lambda>p. tile_dist (fst p) (snd p)) xs))"
proof (induction xs arbitrary: acc)
  case Nil
  then show ?case by simp
next
  case (Cons p xs)
  obtain i v where p: "p = (i, v)" by (cases p)
  from Cons.prems have v: "0 \<le> v" "v \<le> 8" and rest: "\<forall>p \<in> set xs. 0 \<le> snd p \<and> snd p \<le> 8"
    by (auto simp: p)
  show ?case
    using v by (simp add: p Cons.IH [OF rest] GOAL_POS_eq tile_dist_def)
qed

lemma manhattan_sum:
  assumes "set b \<subseteq> {0..8}"
  shows "manhattan b = Inr (\<Sum>i<length b. tile_dist i (b ! i))"
proof -
  have "0 \<le> b ! a \<and> b ! a \<le> 8" if "a < length b" for a
    using assms nth_mem [OF that] by auto
  then have "\<forall>p \<in> set (enumerate 0 b). 0 \<le> snd p \<and> snd p \<le> 8"
    by (auto simp: in_set_enumerate_eq)
  then have "manhattan b = Inr (sum_list (map (\<lambda>p. tile_dist (fst p) (snd p)) (enumerate 0 b)))"
    by (simp add: manhattan_def manhattan_loop_sum)
  also have "sum_list (map (\<lambda>p. tile_dist (fst p) (snd p)) (enumerate 0 b))
             = (\<Sum>i<length b. tile_dist i (b ! i))"
    by (simp add: sum_list_sum_nth nth_enumerate_eq atLeast0LessThan)
  finally show ?thesis .
qed

lemma tile_dist_nonneg: "0 \<le> tile_dist i v"
  by (simp add: tile_dist_def)

lemma tile_dist_zero:
  assumes "i < 9" "0 \<le> v" "v \<le> 8" "tile_dist i v = 0"
  shows "v = 0 \<or> v = int i + 1"
proof (cases "v = 0")
  case True
  then show ?thesis by simp
next
  case False
  with assms have "\<bar>int (i div 3) - int (nat (v - 1) div 3)\<bar> + \<bar>int (i mod 3) - int (nat (v - 1) mod 3)\<bar> = 0"
    by (simp add: tile_dist_def)
  moreover have "\<bar>a\<bar> + \<bar>c\<bar> = 0 \<Longrightarrow> a = 0 \<and> c = 0" for a c :: int
    by arith
  ultimately have "int (i div 3) - int (nat (v - 1) div 3) = 0 \<and> int (i mod 3) - int (nat (v - 1) mod 3) = 0"
    by blast
  then have d: "i div 3 = nat (v - 1) div 3" and m: "i mod 3 = nat (v - 1) mod 3"
    by simp_all
  have "i = nat (v - 1)"
    using d m by (metis div_mult_mod_eq)
  with False assms show ?thesis by simp
qed

lemma manhattan_GOAL: "manhattan GOAL = Inr 0"
  by (simp add: manhattan_def GOAL_def enumerate_eq_zip upt_rec GOAL_POS_eq)

lemma is_board_GOAL: "is_board GOAL"
  by (auto simp: is_board_def GOAL_def)

lemma is_board_range: "is_board b \<Longrightarrow> set b \<subseteq> {0..8}"
  by (simp add: is_board_def)

lemma manhattan_zero_GOAL:
  assumes b: "is_board b" and z: "manhattan b = Inr 0"
  shows "b = GOAL"
proof -
  have len: "length b = 9" and dist: "distinct b" and rng: "set b = {0..8}"
    using b by (simp_all add: is_board_def)
  have "(\<Sum>i<length b. tile_dist i (b ! i)) = 0"
    using z manhattan_sum [of b] rng by simp
  then have each: "tile_dist i (b ! i) = 0" if "i < 9" for i
    using that len by (simp add: sum_nonneg_eq_0_iff tile_dist_nonneg)
  have val: "b ! i = 0 \<or> b ! i = int i + 1" if "i < 9" for i
  proof -
    have "b ! i \<in> {0..8}" using that len rng nth_mem [of i b] by simp
    then show ?thesis using tile_dist_zero [OF that _ _ each [OF that]] by simp
  qed
  have "b ! 8 \<in> {0..8}" using len rng nth_mem [of 8 b] by simp
  with val [of 8] have b8: "b ! 8 = 0" by auto
  have "b ! i = int i + 1" if "i < 8" for i
  proof -
    have "b ! i \<noteq> b ! 8"
      using dist that len by (simp add: nth_eq_iff_index_eq)
    with b8 val [of i] that show ?thesis by simp
  qed
  with b8 have "\<forall>i<9. b ! i = GOAL ! i"
    by (auto simp: GOAL_def less_Suc_eq numeral_eq_Suc)
  with len show ?thesis
    by (simp add: list_eq_iff_nth_eq GOAL_def)
qed


lemma manhattan_val: "is_board b \<Longrightarrow> manhattan b = Inr (manhattan_val b)"
  by (simp add: manhattan_sum is_board_def manhattan_val_def)

lemma py_index_Some: "py_index xs x = Some i \<Longrightarrow> i < length xs \<and> xs ! i = x"
  by (induction xs arbitrary: i) (auto split: if_splits)

lemma py_index_None: "py_index xs x = None \<longleftrightarrow> x \<notin> set xs"
  by (induction xs) auto

lemma py_index_distinct: "distinct xs \<Longrightarrow> i < length xs \<Longrightarrow> py_index xs (xs ! i) = Some i"
proof (induction xs arbitrary: i)
  case Nil
  then show ?case by simp
next
  case (Cons a xs)
  then show ?case by (cases i) auto
qed

lemma is_board_mset: "is_board b \<longleftrightarrow> mset b = mset [0, 1, 2, 3, 4, 5, 6, 7, 8 :: int]"
proof
  assume b: "is_board b"
  have "set [0, 1, 2, 3, 4, 5, 6, 7, 8 :: int] = {0..8}" by auto
  with b have "set b = set [0, 1, 2, 3, 4, 5, 6, 7, 8 :: int]" by (simp add: is_board_def)
  moreover have "distinct [0, 1, 2, 3, 4, 5, 6, 7, 8 :: int]" by simp
  ultimately show "mset b = mset [0, 1, 2, 3, 4, 5, 6, 7, 8 :: int]"
    using b by (metis is_board_def set_eq_iff_mset_eq_distinct)
next
  assume m: "mset b = mset [0, 1, 2, 3, 4, 5, 6, 7, 8 :: int]"
  have "set [0, 1, 2, 3, 4, 5, 6, 7, 8 :: int] = {0..8}" by auto
  moreover from m have "set b = set [0, 1, 2, 3, 4, 5, 6, 7, 8 :: int]" by (rule mset_eq_setD)
  moreover from m have "length b = 9" using mset_eq_length [OF m] by simp
  moreover from m have "distinct b" using mset_eq_imp_distinct_iff [OF m] by simp
  ultimately show "is_board b" by (simp add: is_board_def)
qed

lemma swap_tiles_mset: "z < length b \<Longrightarrow> nb < length b \<Longrightarrow> mset (swap_tiles b z nb) = mset b"
  by (simp add: swap_tiles_def mset_swap)

lemma swap_tiles_board: "is_board b \<Longrightarrow> z < 9 \<Longrightarrow> nb < 9 \<Longrightarrow> is_board (swap_tiles b z nb)"
proof -
  assume b: "is_board b" and "z < 9" "nb < 9"
  then have "mset (swap_tiles b z nb) = mset b"
    by (simp add: swap_tiles_mset is_board_def)
  with b show ?thesis by (simp add: is_board_mset)
qed

lemma neighbors_cases:
  "nb \<in> set (neighbors z) \<longleftrightarrow>
     (3 \<le> z \<and> nb = z - 3) \<or> (z < 6 \<and> nb = z + 3) \<or> (0 < z mod 3 \<and> nb = z - 1) \<or> (z mod 3 < 2 \<and> nb = z + 1)"
  by (auto simp: neighbors_def Let_def)

lemma neighbors_bound: "z < 9 \<Longrightarrow> nb \<in> set (neighbors z) \<Longrightarrow> nb < 9 \<and> nb \<noteq> z"
proof -
  assume a: "z < 9" "nb \<in> set (neighbors z)"
  from a(1) have "z \<in> {0, 1, 2, 3, 4, 5, 6, 7, 8}" by auto
  with a(2) show ?thesis by (auto simp: neighbors_def)
qed

lemma neighbors_sym: "z < 9 \<Longrightarrow> nb \<in> set (neighbors z) \<Longrightarrow> z \<in> set (neighbors nb)"
proof -
  assume a: "z < 9" "nb \<in> set (neighbors z)"
  from a(1) have "z \<in> {0, 1, 2, 3, 4, 5, 6, 7, 8}" by auto
  with a(2) show ?thesis by (auto simp: neighbors_def)
qed

lemma tile_dist_neighbor:
  assumes "z < 9" "nb \<in> set (neighbors z)"
  shows "\<bar>tile_dist z v - tile_dist nb v\<bar> \<le> 1"
proof -
  from assms(1) have "z \<in> {0, 1, 2, 3, 4, 5, 6, 7, 8}" by auto
  with assms(2) have rel:
    "(int (nb div 3) = int (z div 3) \<and>
        (int (nb mod 3) = int (z mod 3) + 1 \<or> int (z mod 3) = int (nb mod 3) + 1))
     \<or> (int (nb mod 3) = int (z mod 3) \<and>
        (int (nb div 3) = int (z div 3) + 1 \<or> int (z div 3) = int (nb div 3) + 1))"
    by (auto simp: neighbors_def)
  have gen: "(r2 = r1 \<and> (c2 = c1 + 1 \<or> c1 = c2 + 1)) \<or> (c2 = c1 \<and> (r2 = r1 + 1 \<or> r1 = r2 + 1))
    \<Longrightarrow> \<bar>(\<bar>r1 - A\<bar> + \<bar>c1 - B\<bar>) - (\<bar>r2 - A\<bar> + \<bar>c2 - B\<bar>)\<bar> \<le> 1"
    for r1 c1 r2 c2 A B :: int
    by arith
  show ?thesis
  proof (cases "v = 0")
    case True
    then show ?thesis by (simp add: tile_dist_def)
  next
    case False
    then show ?thesis
      using gen [OF rel, of "int (nat (v - 1) div 3)" "int (nat (v - 1) mod 3)"]
      by (simp add: tile_dist_def)
  qed
qed

lemma sum_swap:
  fixes f :: "nat \<Rightarrow> int \<Rightarrow> int"
  assumes z: "z < length b" and nb: "nb < length b" and ne: "z \<noteq> nb"
  shows "(\<Sum>i<length b. f i (swap_tiles b z nb ! i))
         = (\<Sum>i<length b. f i (b ! i)) - f z (b ! z) - f nb (b ! nb) + f z (b ! nb) + f nb (b ! z)"
proof -
  let ?S = "{..<length b} - {z} - {nb}"
  let ?b' = "swap_tiles b z nb"
  have fin: "finite {..<length b}" "finite ({..<length b} - {z})" by simp_all
  have mem: "z \<in> {..<length b}" "nb \<in> {..<length b} - {z}" using z nb ne by auto
  have split: "(\<Sum>i<length b. g i) = g z + (g nb + sum g ?S)" for g :: "nat \<Rightarrow> int"
    using sum.remove [OF fin(1) mem(1), of g] sum.remove [OF fin(2) mem(2), of g] by simp
  have same: "sum (\<lambda>i. f i (?b' ! i)) ?S = sum (\<lambda>i. f i (b ! i)) ?S"
    by (rule sum.cong) (auto simp: swap_tiles_def)
  have "?b' ! z = b ! nb" "?b' ! nb = b ! z"
    using z nb ne by (simp_all add: swap_tiles_def)
  then show ?thesis
    using split [of "\<lambda>i. f i (?b' ! i)"] split [of "\<lambda>i. f i (b ! i)"] same by simp
qed

lemma swap_manhattan_val:
  assumes b: "is_board b" and z: "py_index b 0 = Some z" and nb: "nb \<in> set (neighbors z)"
  shows "\<bar>manhattan_val (swap_tiles b z nb) - manhattan_val b\<bar> \<le> 1"
proof -
  have len: "length b = 9" using b by (simp add: is_board_def)
  have z9: "z < 9" and bz: "b ! z = 0" using py_index_Some [OF z] len by auto
  have nb9: "nb < 9" "nb \<noteq> z" using neighbors_bound [OF z9 nb] by auto
  have "manhattan_val (swap_tiles b z nb)
        = manhattan_val b - tile_dist z (b ! z) - tile_dist nb (b ! nb)
          + tile_dist z (b ! nb) + tile_dist nb (b ! z)"
    using sum_swap [of z b nb tile_dist] z9 nb9 len
    by (simp add: manhattan_val_def swap_tiles_def)
  then have "manhattan_val (swap_tiles b z nb) - manhattan_val b
             = tile_dist z (b ! nb) - tile_dist nb (b ! nb)"
    by (simp add: bz tile_dist_def)
  with tile_dist_neighbor [OF z9 nb, of "b ! nb"] show ?thesis by simp
qed

section \<open>The solved board\<close>

text \<open>
  C4: for every budget, positive or not, \<open>astar_solve\<close> on GOAL returns the empty move
  list at once; it is a returned list, neither the \<^verbatim>\<open>None\<close> of an exhausted search nor
  an exception.
\<close>

theorem solve_goal_empty: "astar_solve GOAL budget = Some (Inr (Some []))"
  by (simp add: astar_solve_def)

section \<open>Properties of the heuristic\<close>

lemma apply_move_SomeD:
  assumes "apply_move_by_tile_value b m = Inr (Some b')"
  shows "\<exists>z nb. py_index b 0 = Some z \<and> py_index b m = Some nb \<and> nb \<in> set (neighbors z)
                 \<and> b' = swap_tiles b z nb"
  using assms by (auto simp: apply_move_by_tile_value_def split: option.splits if_splits)

lemma apply_move_board:
  assumes b: "is_board b" and m: "apply_move_by_tile_value b m = Inr (Some b')"
  shows "is_board b' \<and> \<bar>manhattan_val b' - manhattan_val b\<bar> \<le> 1"
proof -
  from apply_move_SomeD [OF m] obtain z nb where z: "py_index b 0 = Some z"
    and nb: "nb \<in> set (neighbors z)" and b': "b' = swap_tiles b z nb" by blast
  have z9: "z < 9" using py_index_Some [OF z] b by (simp add: is_board_def)
  have nb9: "nb < 9" using neighbors_bound [OF z9 nb] by simp
  show ?thesis
    using swap_tiles_board [OF b z9 nb9] swap_manhattan_val [OF b z nb] by (simp add: b')
qed

lemma replay_admissible:
  "is_board b \<Longrightarrow> replay b ms = Inr (Some GOAL) \<Longrightarrow> manhattan_val b \<le> int (length ms)"
proof (induction ms arbitrary: b)
  case Nil
  then have "b = GOAL" by simp
  then have "manhattan b = Inr 0" by (simp add: manhattan_GOAL)
  with Nil.prems(1) show ?case by (simp add: manhattan_val)
next
  case (Cons m ms)
  from Cons.prems(2) obtain b' where m: "apply_move_by_tile_value b m = Inr (Some b')"
    and r: "replay b' ms = Inr (Some GOAL)"
    by (auto split: sum.splits option.splits)
  from apply_move_board [OF Cons.prems(1) m] have b': "is_board b'"
    and d: "\<bar>manhattan_val b' - manhattan_val b\<bar> \<le> 1" by simp_all
  from Cons.IH [OF b' r] d show ?case by simp
qed

lemma manhattan_val_nonneg: "0 \<le> manhattan_val b"
  by (simp add: manhattan_val_def sum_nonneg tile_dist_nonneg)

lemma manhattan_loop_nonneg:
  "manhattan_loop xs acc = Inr n \<Longrightarrow> 0 \<le> acc \<Longrightarrow> 0 \<le> n"
proof (induction xs acc rule: manhattan_loop.induct)
  case (1 dist)
  then show ?case by simp
next
  case (2 i v rest dist)
  then show ?case
    by (auto split: if_splits option.splits)
qed

text \<open>
  C5: \<open>manhattan\<close> of GOAL is 0; whenever \<open>manhattan\<close> returns, on any state, the value
  is not negative; and on a Board it returns a value that is 0 exactly when the Board
  is GOAL.
\<close>

theorem manhattan_goal_iff:
  "manhattan GOAL = Inr 0
   \<and> (\<forall>n. manhattan state = Inr n \<longrightarrow> 0 \<le> n)
   \<and> (is_board b \<longrightarrow> (\<exists>n. manhattan b = Inr n \<and> 0 \<le> n \<and> (n = 0 \<longleftrightarrow> b = GOAL)))"
proof (intro conjI allI impI)
  show "manhattan GOAL = Inr 0" by (rule manhattan_GOAL)
next
  fix n assume "manhattan state = Inr n"
  then show "0 \<le> n" using manhattan_loop_nonneg [of "enumerate 0 state" 0 n] by (simp add: manhattan_def)
next
  assume b: "is_board b"
  have "manhattan_val b = 0 \<longleftrightarrow> b = GOAL"
    using manhattan_zero_GOAL [OF b] manhattan_val [OF b] manhattan_GOAL by auto
  then show "\<exists>n. manhattan b = Inr n \<and> 0 \<le> n \<and> (n = 0 \<longleftrightarrow> b = GOAL)"
    using manhattan_val [OF b] manhattan_val_nonneg [of b] by simp
qed

lemma board_ex1: "is_board [1, 2, 3, 4, 5, 6, 0, 7, 8]"
  by (auto simp: is_board_def)

lemma manhattan_ex1: "manhattan [1, 2, 3, 4, 5, 6, 0, 7, 8] = Inr 2"
  by (simp add: manhattan_def enumerate_eq_zip upt_rec GOAL_POS_eq)

text \<open>The Board [1,2,3,4,5,6,0,7,8] has distance 2 and is not GOAL.\<close>

theorem manhattan_goal_iff_witness:
  "is_board [1, 2, 3, 4, 5, 6, 0, 7, 8] \<and> manhattan [1, 2, 3, 4, 5, 6, 0, 7, 8] = Inr 2
   \<and> (\<exists>n. manhattan [1, 2, 3, 4, 5, 6, 0, 7, 8] = Inr n \<and> 0 \<le> n
          \<and> (n = 0 \<longleftrightarrow> [1, 2, 3, 4, 5, 6, 0, 7, 8] = GOAL))"
  using manhattan_goal_iff [of "[1, 2, 3, 4, 5, 6, 0, 7, 8]" "[1, 2, 3, 4, 5, 6, 0, 7, 8]"]
    board_ex1 manhattan_ex1 by simp

text \<open>
  C6 (consistency): when \<open>apply_move_by_tile_value\<close> moves a tile on a Board, that is,
  the tile stands beside the blank, \<open>manhattan\<close> returns on both Boards and the two
  values differ by at most 1.
\<close>

theorem manhattan_consistent:
  assumes "is_board b" and "apply_move_by_tile_value b m = Inr (Some b')"
  shows "\<exists>h h'. manhattan b = Inr h \<and> manhattan b' = Inr h' \<and> \<bar>h' - h\<bar> \<le> 1"
  using apply_move_board [OF assms] manhattan_val [OF assms(1)] manhattan_val [of b'] by simp

lemma move_ex1: "apply_move_by_tile_value [1, 2, 3, 4, 5, 6, 0, 7, 8] 7 = Inr (Some [1, 2, 3, 4, 5, 6, 7, 0, 8])"
  by (simp add: apply_move_by_tile_value_def neighbors_def swap_tiles_def)

lemma move_ex2: "apply_move_by_tile_value [1, 2, 3, 4, 5, 6, 7, 0, 8] 8 = Inr (Some GOAL)"
  by (simp add: apply_move_by_tile_value_def neighbors_def swap_tiles_def GOAL_def)

text \<open>Moving tile 7 on [1,2,3,4,5,6,0,7,8].\<close>

theorem manhattan_consistent_witness:
  "is_board [1, 2, 3, 4, 5, 6, 0, 7, 8]
   \<and> apply_move_by_tile_value [1, 2, 3, 4, 5, 6, 0, 7, 8] 7 = Inr (Some [1, 2, 3, 4, 5, 6, 7, 0, 8])
   \<and> (\<exists>h h'. manhattan [1, 2, 3, 4, 5, 6, 0, 7, 8] = Inr h
        \<and> manhattan [1, 2, 3, 4, 5, 6, 7, 0, 8] = Inr h' \<and> \<bar>h' - h\<bar> \<le> 1)"
  using manhattan_consistent [OF board_ex1 move_ex1] board_ex1 move_ex1 by simp

text \<open>
  C7 (admissibility): when replaying a move list from a Board ends in GOAL, with every
  move accepted, \<open>manhattan\<close> of the Board is at most the number of moves.
\<close>

theorem manhattan_admissible:
  assumes "is_board b" and "replay b ms = Inr (Some GOAL)"
  shows "\<exists>h. manhattan b = Inr h \<and> h \<le> int (length ms)"
  using replay_admissible [OF assms] manhattan_val [OF assms(1)] by simp

lemma replay_ex1: "replay [1, 2, 3, 4, 5, 6, 0, 7, 8] [7, 8] = Inr (Some GOAL)"
  by (simp add: move_ex1 move_ex2)

text \<open>The moves 7, 8 solve [1,2,3,4,5,6,0,7,8], whose distance is 2.\<close>

theorem manhattan_admissible_witness:
  "is_board [1, 2, 3, 4, 5, 6, 0, 7, 8] \<and> replay [1, 2, 3, 4, 5, 6, 0, 7, 8] [7, 8] = Inr (Some GOAL)
   \<and> (\<exists>h. manhattan [1, 2, 3, 4, 5, 6, 0, 7, 8] = Inr h \<and> h \<le> int (length [7, 8 :: int]))"
  using manhattan_admissible [OF board_ex1 replay_ex1] board_ex1 replay_ex1 by simp

lemma fold_count:
  "fold (\<lambda>y inv. if x > y then inv + 1 else inv) ys (acc :: int)
   = acc + int (length (filter (\<lambda>y. (x :: int) > y) ys))"
  by (induction ys arbitrary: acc) auto

lemma fold_inner:
  assumes "n = length arr"
  shows "fold (\<lambda>j inv. if arr ! i > arr ! j then inv + 1 else inv) [k ..< n] (acc :: int)
         = acc + int (length (filter (\<lambda>y. (arr ! i :: int) > y) (drop k arr)))"
proof -
  have "fold (\<lambda>j inv. if arr ! i > arr ! j then inv + 1 else inv) [k ..< n] acc
        = fold (\<lambda>y inv. if arr ! i > y then inv + 1 else inv) (map ((!) arr) [k ..< n]) acc"
    by (simp add: fold_map comp_def)
  also have "map ((!) arr) [k ..< n] = drop k (map ((!) arr) [0 ..< n])"
    by (simp add: drop_map)
  also have "\<dots> = drop k arr"
    using assms by (simp add: map_nth)
  finally show ?thesis by (simp add: fold_count)
qed

lemma fold_outer:
  assumes n: "n = length arr"
  shows "k \<le> n \<Longrightarrow>
         fold (\<lambda>i inv. fold (\<lambda>j inv. if arr ! i > arr ! j then inv + 1 else inv) [i + 1 ..< n] inv)
              [k ..< n] acc
         = acc + inv_count (drop k arr)"
proof (induction "n - k" arbitrary: k acc)
  case 0
  then show ?case using n by simp
next
  case (Suc d)
  then have k: "k < n" by simp
  have upt: "[k ..< n] = k # [Suc k ..< n]" using k by (simp add: upt_conv_Cons)
  have dr: "drop k arr = arr ! k # drop (Suc k) arr"
    using k n by (simp add: Cons_nth_drop_Suc)
  have d: "d = n - Suc k" using Suc.hyps(2) by simp
  have le: "Suc k \<le> n" using k by simp
  have IH: "fold (\<lambda>i inv. fold (\<lambda>j inv. if arr ! i > arr ! j then inv + 1 else inv) [Suc i ..< n] inv)
                 [Suc k ..< n] a
            = a + inv_count (drop (Suc k) arr)" for a
    using Suc.hyps(1) [OF d le, of a] by simp
  show ?case
    unfolding upt dr by (simp add: fold_inner [OF n] IH)
qed

lemma inversions_eq: "inversions state = inv_count (filter (\<lambda>x. x \<noteq> 0) state)"
  using fold_outer [of "length (filter (\<lambda>x. x \<noteq> 0) state)" "filter (\<lambda>x. x \<noteq> 0) state" 0 0]
  by (simp add: inversions_def Let_def)

lemma cross_Nil [simp]: "cross [] ys = 0" "cross xs [] = 0"
  by (simp_all add: cross_def)

lemma cross_Cons_left: "cross (x # xs) ys = int (length (filter (\<lambda>y. x > y) ys)) + cross xs ys"
  by (simp add: cross_def)

lemma cross_Cons_right: "cross xs (y # ys) = cross xs [y] + cross xs ys"
  by (induction xs) (auto simp: cross_Cons_left)

lemma inv_count_append: "inv_count (xs @ ys) = inv_count xs + inv_count ys + cross xs ys"
  by (induction xs) (auto simp: cross_Cons_left)

lemma inv_parity_jump:
  assumes "t \<noteq> u" "t \<noteq> w"
  shows "inv_count (P @ u # w # t # S) mod 2 = inv_count (P @ t # u # w # S) mod 2"
proof -
  have l: "cross P (u # w # t # S) = cross P [u] + cross P [w] + cross P [t] + cross P S"
    using cross_Cons_right [of P u "w # t # S"] cross_Cons_right [of P w "t # S"]
      cross_Cons_right [of P t S] by simp
  have r: "cross P (t # u # w # S) = cross P [u] + cross P [w] + cross P [t] + cross P S"
    using cross_Cons_right [of P t "u # w # S"] cross_Cons_right [of P u "w # S"]
      cross_Cons_right [of P w S] by simp
  have "\<exists>k. inv_count (u # w # t # S) = inv_count (t # u # w # S) + 2 * k"
  proof -
    have "inv_count (u # w # t # S) - inv_count (t # u # w # S)
          = (if u > t then 1 else 0) + (if w > t then 1 else 0)
            - (if t > u then 1 else 0) - (if t > w then 1 else 0)"
      by simp
    also have "\<dots> = 2 * ((if u > t then 1 else 0) + (if w > t then 1 else 0) - 1)"
      using assms by auto
    finally show ?thesis
      by (metis add.commute diff_add_cancel)
  qed
  then obtain k where "inv_count (u # w # t # S) = inv_count (t # u # w # S) + 2 * k" ..
  then have "inv_count (P @ u # w # t # S) = inv_count (P @ t # u # w # S) + 2 * k"
    by (simp add: inv_count_append l r)
  then show ?thesis by simp
qed


lemma swap_tiles_commute: "swap_tiles b z nb = swap_tiles b nb z"
  by (cases "z = nb") (simp_all add: swap_tiles_def list_update_swap)

lemma swap_append3:
  "swap_tiles (P @ a # u # w # t # S) (length P) (length P + 3) = P @ t # u # w # a # S"
  by (simp add: swap_tiles_def nth_append list_update_append)

lemma swap_append1:
  "swap_tiles (P @ a # t # S) (length P) (length P + 1) = P @ t # a # S"
  by (simp add: swap_tiles_def nth_append list_update_append)

lemma split1:
  assumes "i + 1 < length b"
  shows "\<exists>P S. b = P @ b ! i # b ! (i + 1) # S \<and> length P = i"
proof -
  have "drop i b = b ! i # drop (Suc i) b" "drop (Suc i) b = b ! (i + 1) # drop (i + 2) b"
    using assms by (simp_all add: Cons_nth_drop_Suc)
  then have "b = take i b @ b ! i # b ! (i + 1) # drop (i + 2) b"
    by (metis append_take_drop_id)
  moreover have "length (take i b) = i" using assms by simp
  ultimately show ?thesis by blast
qed

lemma split3:
  assumes "i + 3 < length b"
  shows "\<exists>P S. b = P @ b ! i # b ! (i + 1) # b ! (i + 2) # b ! (i + 3) # S \<and> length P = i"
proof -
  have "drop i b = b ! i # drop (Suc i) b" "drop (Suc i) b = b ! (i + 1) # drop (i + 2) b"
    "drop (i + 2) b = b ! (i + 2) # drop (i + 3) b" "drop (i + 3) b = b ! (i + 3) # drop (i + 4) b"
    using assms Cons_nth_drop_Suc [of i b] Cons_nth_drop_Suc [of "i + 1" b]
      Cons_nth_drop_Suc [of "i + 2" b] Cons_nth_drop_Suc [of "i + 3" b]
    by (simp_all add: numeral_eq_Suc)
  then have "b = take i b @ b ! i # b ! (i + 1) # b ! (i + 2) # b ! (i + 3) # drop (i + 4) b"
    by (metis append_take_drop_id)
  moreover have "length (take i b) = i" using assms by simp
  ultimately show ?thesis by blast
qed

lemma jump_parity:
  assumes d: "distinct b" and nb: "nb + 3 < length b" and z: "b ! nb = 0 \<or> b ! (nb + 3) = 0"
  shows "inv_count (filter (\<lambda>x. x \<noteq> 0) (swap_tiles b nb (nb + 3))) mod 2
         = inv_count (filter (\<lambda>x. x \<noteq> 0) b) mod 2"
proof -
  from split3 [OF nb] obtain P S where
    bP: "b = P @ b ! nb # b ! (nb + 1) # b ! (nb + 2) # b ! (nb + 3) # S" and lP: "length P = nb"
    by blast
  define a u w t where "a = b ! nb" and "u = b ! (nb + 1)" and "w = b ! (nb + 2)" and "t = b ! (nb + 3)"
  have bP': "b = P @ a # u # w # t # S" using bP by (simp add: a_def u_def w_def t_def)
  have dist: "distinct (P @ a # u # w # t # S)" using d bP' by simp
  have sw: "swap_tiles b nb (nb + 3) = P @ t # u # w # a # S"
    using swap_append3 [of P a u w t S] bP' lP by simp
  from z have "a = 0 \<or> t = 0" by (simp add: a_def t_def)
  then show ?thesis
  proof
    assume a0: "a = 0"
    with dist have ne: "u \<noteq> 0" "w \<noteq> 0" "t \<noteq> 0" "t \<noteq> u" "t \<noteq> w" by auto
    have "filter (\<lambda>x. x \<noteq> 0) b = filter (\<lambda>x. x \<noteq> 0) P @ u # w # t # filter (\<lambda>x. x \<noteq> 0) S"
      by (subst bP') (simp add: a0 ne)
    moreover have "filter (\<lambda>x. x \<noteq> 0) (swap_tiles b nb (nb + 3))
                   = filter (\<lambda>x. x \<noteq> 0) P @ t # u # w # filter (\<lambda>x. x \<noteq> 0) S"
      by (simp add: sw a0 ne)
    ultimately show ?thesis using inv_parity_jump [OF ne(4) ne(5)] by simp
  next
    assume t0: "t = 0"
    with dist have ne: "u \<noteq> 0" "w \<noteq> 0" "a \<noteq> 0" "a \<noteq> u" "a \<noteq> w" by auto
    have "filter (\<lambda>x. x \<noteq> 0) b = filter (\<lambda>x. x \<noteq> 0) P @ a # u # w # filter (\<lambda>x. x \<noteq> 0) S"
      by (subst bP') (simp add: t0 ne)
    moreover have "filter (\<lambda>x. x \<noteq> 0) (swap_tiles b nb (nb + 3))
                   = filter (\<lambda>x. x \<noteq> 0) P @ u # w # a # filter (\<lambda>x. x \<noteq> 0) S"
      by (simp add: sw t0 ne)
    ultimately show ?thesis using inv_parity_jump [OF ne(4) ne(5)] by simp
  qed
qed

lemma slide_same:
  assumes nb: "nb + 1 < length b" and z: "b ! nb = 0 \<or> b ! (nb + 1) = 0"
  shows "filter (\<lambda>x. x \<noteq> 0) (swap_tiles b nb (nb + 1)) = filter (\<lambda>x. x \<noteq> 0) b"
proof -
  from split1 [OF nb] obtain P S where
    bP: "b = P @ b ! nb # b ! (nb + 1) # S" and lP: "length P = nb"
    by blast
  define a t where "a = b ! nb" and "t = b ! (nb + 1)"
  have bP': "b = P @ a # t # S" using bP by (simp add: a_def t_def)
  have sw: "swap_tiles b nb (Suc nb) = P @ t # a # S"
    using swap_append1 [of P a t S] bP' lP by simp
  from z have "a = 0 \<or> t = 0" by (simp add: a_def t_def)
  moreover have "filter (\<lambda>x. x \<noteq> 0) b = filter (\<lambda>x. x \<noteq> 0) (P @ a # t # S)"
    by (subst bP') rule
  ultimately show ?thesis by (auto simp: sw)
qed

lemma swap_solvable:
  assumes b: "is_board b" and z: "py_index b 0 = Some z" and nb: "nb \<in> set (neighbors z)"
  shows "is_solvable_3x3 (swap_tiles b z nb) = is_solvable_3x3 b"
proof -
  have len: "length b = 9" and d: "distinct b" using b by (simp_all add: is_board_def)
  have z9: "z < 9" and bz: "b ! z = 0" using py_index_Some [OF z] len by auto
  have nb9: "nb < 9" using neighbors_bound [OF z9 nb] by simp
  from nb have "nb + 3 = z \<or> nb = z + 3 \<or> nb + 1 = z \<or> nb = z + 1"
    by (auto simp: neighbors_cases)
  then have "inv_count (filter (\<lambda>x. x \<noteq> 0) (swap_tiles b z nb)) mod 2
             = inv_count (filter (\<lambda>x. x \<noteq> 0) b) mod 2"
  proof (elim disjE)
    assume e: "nb + 3 = z"
    show ?thesis
      using jump_parity [OF d, of nb] z9 bz len e swap_tiles_commute [of b z nb] by auto
  next
    assume e: "nb = z + 3"
    show ?thesis
      using jump_parity [OF d, of z] nb9 bz len e by auto
  next
    assume e: "nb + 1 = z"
    show ?thesis
      using slide_same [of nb b] z9 bz len e swap_tiles_commute [of b z nb] by auto
  next
    assume e: "nb = z + 1"
    show ?thesis
      using slide_same [of z b] nb9 bz len e by auto
  qed
  then show ?thesis by (simp add: is_solvable_3x3_def inversions_eq)
qed


lemma apply_move_solvable:
  assumes b: "is_board b" and m: "apply_move_by_tile_value b m = Inr (Some b')"
  shows "is_solvable_3x3 b' = is_solvable_3x3 b"
proof -
  from apply_move_SomeD [OF m] obtain z nb where z: "py_index b 0 = Some z"
    and nb: "nb \<in> set (neighbors z)" and b': "b' = swap_tiles b z nb" by blast
  show ?thesis using swap_solvable [OF b z nb] by (simp add: b')
qed

lemma swap_board:
  assumes b: "is_board b" and z: "py_index b 0 = Some z" and nb: "nb \<in> set (neighbors z)"
  shows "is_board (swap_tiles b z nb)"
proof -
  have z9: "z < 9" using py_index_Some [OF z] b by (simp add: is_board_def)
  show ?thesis using swap_tiles_board [OF b z9] neighbors_bound [OF z9 nb] by simp
qed

lemma solvable_ex1: "is_solvable_3x3 [1, 2, 3, 4, 5, 6, 0, 7, 8]"
  by (simp add: is_solvable_3x3_def inversions_eq)

section \<open>Solvability is invariant under moves\<close>

text \<open>
  C10: on a Board, a move that \<open>apply_move_by_tile_value\<close> accepts gives a Board again,
  with the same value of \<open>is_solvable_3x3\<close>; the same holds for the exchange of the
  blank with any of its \<open>neighbors\<close>, which is the step of the search.
\<close>

theorem move_preserves_solvability:
  assumes "is_board b"
  shows "(apply_move_by_tile_value b m = Inr (Some b') \<longrightarrow>
            is_board b' \<and> is_solvable_3x3 b' = is_solvable_3x3 b)
       \<and> (py_index b 0 = Some z \<and> nb \<in> set (neighbors z) \<longrightarrow>
            is_board (swap_tiles b z nb)
            \<and> is_solvable_3x3 (swap_tiles b z nb) = is_solvable_3x3 b)"
  using apply_move_board [OF assms] apply_move_solvable [OF assms]
    swap_board [OF assms] swap_solvable [OF assms]
  by blast

text \<open>Moving tile 7 on the solvable Board [1,2,3,4,5,6,0,7,8]: the blank is at 6, the tile at 7.\<close>

theorem move_preserves_solvability_witness:
  "is_board [1, 2, 3, 4, 5, 6, 0, 7, 8]
   \<and> apply_move_by_tile_value [1, 2, 3, 4, 5, 6, 0, 7, 8] 7 = Inr (Some [1, 2, 3, 4, 5, 6, 7, 0, 8])
   \<and> py_index [1, 2, 3, 4, 5, 6, 0, 7, 8 :: int] 0 = Some 6 \<and> 7 \<in> set (neighbors 6)
   \<and> swap_tiles [1, 2, 3, 4, 5, 6, 0, 7, 8] 6 7 = [1, 2, 3, 4, 5, 6, 7, 0, 8]
   \<and> is_board [1, 2, 3, 4, 5, 6, 7, 0, 8]
   \<and> is_solvable_3x3 [1, 2, 3, 4, 5, 6, 0, 7, 8]
   \<and> is_solvable_3x3 [1, 2, 3, 4, 5, 6, 7, 0, 8]"
proof -
  have z: "py_index [1, 2, 3, 4, 5, 6, 0, 7, 8 :: int] 0 = Some 6" by simp
  have nb: "7 \<in> set (neighbors 6)" by (simp add: neighbors_def)
  have sw: "swap_tiles [1, 2, 3, 4, 5, 6, 0, 7, 8] 6 7 = [1, 2, 3, 4, 5, 6, 7, 0, 8]"
    by (simp add: swap_tiles_def)
  show ?thesis
    using move_preserves_solvability [OF board_ex1, of 7 "[1, 2, 3, 4, 5, 6, 7, 0, 8]" 6 7]
      board_ex1 move_ex1 z nb sw solvable_ex1
    by simp
qed

lemma replay_append:
  "replay b (ms @ ns) =
     (case replay b ms of Inl e \<Rightarrow> Inl e | Inr None \<Rightarrow> Inr None | Inr (Some b') \<Rightarrow> replay b' ns)"
  by (induction ms arbitrary: b) (auto split: sum.splits option.splits)

lemma reachable_refl: "reachable b b"
  unfolding reachable_def by (rule exI [of _ "[]"]) simp

lemma reachable_trans: "reachable a b \<Longrightarrow> reachable b c \<Longrightarrow> reachable a c"
proof -
  assume "reachable a b" "reachable b c"
  then obtain ms ns where "replay a ms = Inr (Some b)" "replay b ns = Inr (Some c)"
    unfolding reachable_def by blast
  then have "replay a (ms @ ns) = Inr (Some c)" by (simp add: replay_append)
  then show ?thesis unfolding reachable_def by blast
qed

lemma blank_index: "is_board b \<Longrightarrow> z < 9 \<Longrightarrow> b ! z = 0 \<Longrightarrow> py_index b 0 = Some z"
  using py_index_distinct [of b z] by (simp add: is_board_def)

lemma swap_move:
  assumes b: "is_board b" and z: "py_index b 0 = Some z" and nb: "nb \<in> set (neighbors z)"
  shows "apply_move_by_tile_value b (b ! nb) = Inr (Some (swap_tiles b z nb))"
proof -
  have z9: "z < 9" using py_index_Some [OF z] b by (simp add: is_board_def)
  have nb9: "nb < 9" using neighbors_bound [OF z9 nb] by simp
  have "py_index b (b ! nb) = Some nb"
    using py_index_distinct [of b nb] b nb9 by (simp add: is_board_def)
  then show ?thesis using z nb by (simp add: apply_move_by_tile_value_def)
qed

lemma swap_blank:
  assumes b: "is_board b" and z: "py_index b 0 = Some z" and nb: "nb \<in> set (neighbors z)"
  shows "py_index (swap_tiles b z nb) 0 = Some nb"
proof -
  have len: "length b = 9" using b by (simp add: is_board_def)
  have z9: "z < 9" and bz: "b ! z = 0" using py_index_Some [OF z] len by auto
  have nb9: "nb < 9" using neighbors_bound [OF z9 nb] by simp
  have "swap_tiles b z nb ! nb = 0" using bz nb9 len by (simp add: swap_tiles_def)
  then show ?thesis using blank_index [OF swap_board [OF b z nb] nb9] by simp
qed

lemma walk_reachable:
  "is_board b \<Longrightarrow> py_index b 0 = Some z \<Longrightarrow> legal_walk z p \<Longrightarrow>
   reachable b (walk b z p) \<and> is_board (walk b z p)"
proof (induction p arbitrary: b z)
  case Nil
  then show ?case by (simp add: reachable_refl)
next
  case (Cons nb p)
  from Cons.prems have nb: "nb \<in> set (neighbors z)" and lw: "legal_walk nb p" by simp_all
  let ?b' = "swap_tiles b z nb"
  have b': "is_board ?b'" by (rule swap_board [OF Cons.prems(1,2) nb])
  have z': "py_index ?b' 0 = Some nb" by (rule swap_blank [OF Cons.prems(1,2) nb])
  have "replay b [b ! nb] = Inr (Some ?b')"
    by (simp add: swap_move [OF Cons.prems(1,2) nb])
  then have "reachable b ?b'" unfolding reachable_def by blast
  with Cons.IH [OF b' z' lw] show ?case
    by (auto intro: reachable_trans)
qed

lemma walk_from_8:
  assumes "is_board b" "b ! 8 = 0" "legal_walk 8 p"
  shows "reachable b (walk b 8 p) \<and> is_board (walk b 8 p)"
  using walk_reachable [OF assms(1) blank_index [OF assms(1) _ assms(2)] assms(3)] by simp

lemma length9:
  "length b = 9 \<Longrightarrow> \<exists>x0 x1 x2 x3 x4 x5 x6 x7 x8. b = [x0, x1, x2, x3, x4, x5, x6, x7, x8]"
  by (auto simp: length_Suc_conv numeral_eq_Suc)

subsection \<open>Explicit walks\<close>

text \<open>The walks below were found by a breadth-first search outside the prover; each
  lemma checks one of them on a list of nine arbitrary values.\<close>

lemma blank_walk_0:
  "legal_walk 0 [3, 6, 7, 8] \<and> walk [x0, x1, x2, x3, x4, x5, x6, x7, x8] 0 [3, 6, 7, 8] = [x3, x1, x2, x6, x4, x5, x7, x8, x0]"
  by (simp add: neighbors_def swap_tiles_def)

lemma blank_walk_1:
  "legal_walk 1 [4, 7, 8] \<and> walk [x0, x1, x2, x3, x4, x5, x6, x7, x8] 1 [4, 7, 8] = [x0, x4, x2, x3, x7, x5, x6, x8, x1]"
  by (simp add: neighbors_def swap_tiles_def)

lemma blank_walk_2:
  "legal_walk 2 [5, 8] \<and> walk [x0, x1, x2, x3, x4, x5, x6, x7, x8] 2 [5, 8] = [x0, x1, x5, x3, x4, x8, x6, x7, x2]"
  by (simp add: neighbors_def swap_tiles_def)

lemma blank_walk_3:
  "legal_walk 3 [6, 7, 8] \<and> walk [x0, x1, x2, x3, x4, x5, x6, x7, x8] 3 [6, 7, 8] = [x0, x1, x2, x6, x4, x5, x7, x8, x3]"
  by (simp add: neighbors_def swap_tiles_def)

lemma blank_walk_4:
  "legal_walk 4 [7, 8] \<and> walk [x0, x1, x2, x3, x4, x5, x6, x7, x8] 4 [7, 8] = [x0, x1, x2, x3, x7, x5, x6, x8, x4]"
  by (simp add: neighbors_def swap_tiles_def)

lemma blank_walk_5:
  "legal_walk 5 [8] \<and> walk [x0, x1, x2, x3, x4, x5, x6, x7, x8] 5 [8] = [x0, x1, x2, x3, x4, x8, x6, x7, x5]"
  by (simp add: neighbors_def swap_tiles_def)

lemma blank_walk_6:
  "legal_walk 6 [7, 8] \<and> walk [x0, x1, x2, x3, x4, x5, x6, x7, x8] 6 [7, 8] = [x0, x1, x2, x3, x4, x5, x7, x8, x6]"
  by (simp add: neighbors_def swap_tiles_def)

lemma blank_walk_7:
  "legal_walk 7 [8] \<and> walk [x0, x1, x2, x3, x4, x5, x6, x7, x8] 7 [8] = [x0, x1, x2, x3, x4, x5, x6, x8, x7]"
  by (simp add: neighbors_def swap_tiles_def)

lemma tile_walk_1_0:
  "legal_walk 8 [] \<and> walk [x0, x1, x2, x3, x4, x5, x6, x7, x8] 8 [] = [x0, x1, x2, x3, x4, x5, x6, x7, x8]"
  by (simp add: neighbors_def swap_tiles_def)

lemma tile_walk_1_1:
  "legal_walk 8 [5, 4, 3, 0, 1, 4, 7, 8] \<and> walk [x0, x1, x2, x3, x4, x5, x6, x7, x8] 8 [5, 4, 3, 0, 1, 4, 7, 8] = [x1, x3, x2, x0, x7, x4, x6, x5, x8]"
  by (simp add: neighbors_def swap_tiles_def)

lemma tile_walk_1_2:
  "legal_walk 8 [5, 4, 1, 2, 5, 4, 3, 0, 1, 4, 7, 8] \<and> walk [x0, x1, x2, x3, x4, x5, x6, x7, x8] 8 [5, 4, 1, 2, 5, 4, 3, 0, 1, 4, 7, 8] = [x2, x3, x4, x0, x7, x1, x6, x5, x8]"
  by (simp add: neighbors_def swap_tiles_def)

lemma tile_walk_1_3:
  "legal_walk 8 [5, 2, 1, 0, 3, 6, 7, 8] \<and> walk [x0, x1, x2, x3, x4, x5, x6, x7, x8] 8 [5, 2, 1, 0, 3, 6, 7, 8] = [x3, x0, x1, x6, x4, x2, x7, x5, x8]"
  by (simp add: neighbors_def swap_tiles_def)

lemma tile_walk_1_4:
  "legal_walk 8 [5, 2, 1, 4, 3, 0, 1, 4, 7, 8] \<and> walk [x0, x1, x2, x3, x4, x5, x6, x7, x8] 8 [5, 2, 1, 4, 3, 0, 1, 4, 7, 8] = [x4, x3, x1, x0, x7, x2, x6, x5, x8]"
  by (simp add: neighbors_def swap_tiles_def)

lemma tile_walk_1_5:
  "legal_walk 8 [7, 4, 5, 2, 1, 4, 3, 0, 1, 4, 7, 8] \<and> walk [x0, x1, x2, x3, x4, x5, x6, x7, x8] 8 [7, 4, 5, 2, 1, 4, 3, 0, 1, 4, 7, 8] = [x5, x3, x1, x0, x4, x2, x6, x7, x8]"
  by (simp add: neighbors_def swap_tiles_def)

lemma tile_walk_1_6:
  "legal_walk 8 [5, 4, 3, 6, 7, 4, 1, 0, 3, 6, 7, 8] \<and> walk [x0, x1, x2, x3, x4, x5, x6, x7, x8] 8 [5, 4, 3, 6, 7, 4, 1, 0, 3, 6, 7, 8] = [x6, x0, x2, x7, x1, x4, x3, x5, x8]"
  by (simp add: neighbors_def swap_tiles_def)

lemma tile_walk_1_7:
  "legal_walk 8 [5, 4, 7, 6, 3, 4, 1, 0, 3, 6, 7, 8] \<and> walk [x0, x1, x2, x3, x4, x5, x6, x7, x8] 8 [5, 4, 7, 6, 3, 4, 1, 0, 3, 6, 7, 8] = [x7, x0, x2, x3, x1, x4, x6, x5, x8]"
  by (simp add: neighbors_def swap_tiles_def)

lemma tile_walk_2_1:
  "legal_walk 8 [] \<and> walk [x0, x1, x2, x3, x4, x5, x6, x7, x8] 8 [] = [x0, x1, x2, x3, x4, x5, x6, x7, x8]"
  by (simp add: neighbors_def swap_tiles_def)

lemma tile_walk_2_2:
  "legal_walk 8 [5, 4, 1, 2, 5, 8] \<and> walk [x0, x1, x2, x3, x4, x5, x6, x7, x8] 8 [5, 4, 1, 2, 5, 8] = [x0, x2, x4, x3, x1, x5, x6, x7, x8]"
  by (simp add: neighbors_def swap_tiles_def)

lemma tile_walk_2_3:
  "legal_walk 8 [5, 4, 3, 6, 7, 8, 5, 2, 1, 4, 7, 8] \<and> walk [x0, x1, x2, x3, x4, x5, x6, x7, x8] 8 [5, 4, 3, 6, 7, 8, 5, 2, 1, 4, 7, 8] = [x0, x3, x1, x6, x5, x2, x7, x4, x8]"
  by (simp add: neighbors_def swap_tiles_def)

lemma tile_walk_2_4:
  "legal_walk 8 [5, 2, 1, 4, 7, 8] \<and> walk [x0, x1, x2, x3, x4, x5, x6, x7, x8] 8 [5, 2, 1, 4, 7, 8] = [x0, x4, x1, x3, x7, x2, x6, x5, x8]"
  by (simp add: neighbors_def swap_tiles_def)

lemma tile_walk_2_5:
  "legal_walk 8 [7, 4, 5, 2, 1, 4, 7, 8] \<and> walk [x0, x1, x2, x3, x4, x5, x6, x7, x8] 8 [7, 4, 5, 2, 1, 4, 7, 8] = [x0, x5, x1, x3, x4, x2, x6, x7, x8]"
  by (simp add: neighbors_def swap_tiles_def)

lemma tile_walk_2_6:
  "legal_walk 8 [7, 6, 3, 4, 7, 8, 5, 2, 1, 4, 7, 8] \<and> walk [x0, x1, x2, x3, x4, x5, x6, x7, x8] 8 [7, 6, 3, 4, 7, 8, 5, 2, 1, 4, 7, 8] = [x0, x6, x1, x4, x7, x2, x3, x5, x8]"
  by (simp add: neighbors_def swap_tiles_def)

lemma tile_walk_2_7:
  "legal_walk 8 [5, 4, 7, 8, 5, 2, 1, 4, 7, 8] \<and> walk [x0, x1, x2, x3, x4, x5, x6, x7, x8] 8 [5, 4, 7, 8, 5, 2, 1, 4, 7, 8] = [x0, x7, x1, x3, x5, x2, x6, x4, x8]"
  by (simp add: neighbors_def swap_tiles_def)

lemma tile_walk_3_2:
  "legal_walk 8 [] \<and> walk [x0, x1, x2, x3, x4, x5, x6, x7, x8] 8 [] = [x0, x1, x2, x3, x4, x5, x6, x7, x8]"
  by (simp add: neighbors_def swap_tiles_def)

lemma tile_walk_3_3:
  "legal_walk 8 [5, 2, 1, 4, 3, 6, 7, 8, 5, 4, 1, 2, 5, 8] \<and> walk [x0, x1, x2, x3, x4, x5, x6, x7, x8] 8 [5, 2, 1, 4, 3, 6, 7, 8, 5, 4, 1, 2, 5, 8] = [x0, x1, x3, x6, x4, x2, x7, x5, x8]"
  by (simp add: neighbors_def swap_tiles_def)

lemma tile_walk_3_4:
  "legal_walk 8 [5, 4, 3, 0, 1, 2, 5, 4, 1, 0, 3, 6, 7, 8] \<and> walk [x0, x1, x2, x3, x4, x5, x6, x7, x8] 8 [5, 4, 3, 0, 1, 2, 5, 4, 1, 0, 3, 6, 7, 8] = [x0, x1, x4, x6, x2, x3, x7, x5, x8]"
  by (simp add: neighbors_def swap_tiles_def)

lemma tile_walk_3_5:
  "legal_walk 8 [5, 2, 1, 4, 5, 8, 7, 4, 1, 2, 5, 8] \<and> walk [x0, x1, x2, x3, x4, x5, x6, x7, x8] 8 [5, 2, 1, 4, 5, 8, 7, 4, 1, 2, 5, 8] = [x0, x1, x5, x3, x4, x7, x6, x2, x8]"
  by (simp add: neighbors_def swap_tiles_def)

lemma tile_walk_3_6:
  "legal_walk 8 [5, 2, 1, 4, 7, 6, 3, 4, 7, 8, 5, 4, 1, 2, 5, 8] \<and> walk [x0, x1, x2, x3, x4, x5, x6, x7, x8] 8 [5, 2, 1, 4, 7, 6, 3, 4, 7, 8, 5, 4, 1, 2, 5, 8] = [x0, x1, x6, x7, x4, x2, x3, x5, x8]"
  by (simp add: neighbors_def swap_tiles_def)

lemma tile_walk_3_7:
  "legal_walk 8 [5, 2, 1, 4, 7, 8, 5, 4, 1, 2, 5, 8] \<and> walk [x0, x1, x2, x3, x4, x5, x6, x7, x8] 8 [5, 2, 1, 4, 7, 8, 5, 4, 1, 2, 5, 8] = [x0, x1, x7, x3, x4, x2, x6, x5, x8]"
  by (simp add: neighbors_def swap_tiles_def)

lemma tile_walk_4_3:
  "legal_walk 8 [] \<and> walk [x0, x1, x2, x3, x4, x5, x6, x7, x8] 8 [] = [x0, x1, x2, x3, x4, x5, x6, x7, x8]"
  by (simp add: neighbors_def swap_tiles_def)

lemma tile_walk_4_4:
  "legal_walk 8 [7, 6, 3, 4, 7, 8] \<and> walk [x0, x1, x2, x3, x4, x5, x6, x7, x8] 8 [7, 6, 3, 4, 7, 8] = [x0, x1, x2, x4, x6, x5, x3, x7, x8]"
  by (simp add: neighbors_def swap_tiles_def)

lemma tile_walk_4_5:
  "legal_walk 8 [7, 4, 5, 8, 7, 6, 3, 4, 7, 8] \<and> walk [x0, x1, x2, x3, x4, x5, x6, x7, x8] 8 [7, 4, 5, 8, 7, 6, 3, 4, 7, 8] = [x0, x1, x2, x5, x6, x7, x3, x4, x8]"
  by (simp add: neighbors_def swap_tiles_def)

lemma tile_walk_4_6:
  "legal_walk 8 [5, 4, 3, 6, 7, 8] \<and> walk [x0, x1, x2, x3, x4, x5, x6, x7, x8] 8 [5, 4, 3, 6, 7, 8] = [x0, x1, x2, x6, x3, x4, x7, x5, x8]"
  by (simp add: neighbors_def swap_tiles_def)

lemma tile_walk_4_7:
  "legal_walk 8 [5, 4, 7, 6, 3, 4, 7, 8] \<and> walk [x0, x1, x2, x3, x4, x5, x6, x7, x8] 8 [5, 4, 7, 6, 3, 4, 7, 8] = [x0, x1, x2, x7, x6, x4, x3, x5, x8]"
  by (simp add: neighbors_def swap_tiles_def)

lemma tile_walk_5_4:
  "legal_walk 8 [] \<and> walk [x0, x1, x2, x3, x4, x5, x6, x7, x8] 8 [] = [x0, x1, x2, x3, x4, x5, x6, x7, x8]"
  by (simp add: neighbors_def swap_tiles_def)

lemma tile_walk_5_5:
  "legal_walk 8 [7, 4, 5, 8] \<and> walk [x0, x1, x2, x3, x4, x5, x6, x7, x8] 8 [7, 4, 5, 8] = [x0, x1, x2, x3, x5, x7, x6, x4, x8]"
  by (simp add: neighbors_def swap_tiles_def)

lemma tile_walk_5_6:
  "legal_walk 8 [5, 2, 1, 0, 3, 6, 7, 4, 3, 0, 1, 2, 5, 8] \<and> walk [x0, x1, x2, x3, x4, x5, x6, x7, x8] 8 [5, 2, 1, 0, 3, 6, 7, 4, 3, 0, 1, 2, 5, 8] = [x0, x1, x2, x3, x6, x5, x7, x4, x8]"
  by (simp add: neighbors_def swap_tiles_def)

lemma tile_walk_5_7:
  "legal_walk 8 [5, 4, 7, 8] \<and> walk [x0, x1, x2, x3, x4, x5, x6, x7, x8] 8 [5, 4, 7, 8] = [x0, x1, x2, x3, x7, x4, x6, x5, x8]"
  by (simp add: neighbors_def swap_tiles_def)

lemma tile_walk_6_5:
  "legal_walk 8 [] \<and> walk [x0, x1, x2, x3, x4, x5, x6, x7, x8] 8 [] = [x0, x1, x2, x3, x4, x5, x6, x7, x8]"
  by (simp add: neighbors_def swap_tiles_def)

lemma tile_walk_6_6:
  "legal_walk 8 [7, 6, 3, 4, 7, 8, 5, 4, 3, 6, 7, 8] \<and> walk [x0, x1, x2, x3, x4, x5, x6, x7, x8] 8 [7, 6, 3, 4, 7, 8, 5, 4, 3, 6, 7, 8] = [x0, x1, x2, x3, x4, x6, x7, x5, x8]"
  by (simp add: neighbors_def swap_tiles_def)

lemma tile_walk_6_7:
  "legal_walk 8 [7, 6, 3, 4, 5, 8, 7, 4, 3, 6, 7, 8] \<and> walk [x0, x1, x2, x3, x4, x5, x6, x7, x8] 8 [7, 6, 3, 4, 5, 8, 7, 4, 3, 6, 7, 8] = [x0, x1, x2, x3, x4, x7, x5, x6, x8]"
  by (simp add: neighbors_def swap_tiles_def)

subsection \<open>Bringing the blank and the tiles home\<close>

lemma blank_to_8:
  assumes b: "is_board b"
  shows "\<exists>b'. reachable b b' \<and> is_board b' \<and> b' ! 8 = 0"
proof -
  from b obtain x0 x1 x2 x3 x4 x5 x6 x7 x8 where eq: "b = [x0, x1, x2, x3, x4, x5, x6, x7, x8]"
    using length9 [of b] unfolding is_board_def by blast
  have "0 \<in> set b" using b by (simp add: is_board_def)
  then consider (c0) "x0 = 0" | (c1) "x1 = 0" | (c2) "x2 = 0" | (c3) "x3 = 0" | (c4) "x4 = 0" | (c5) "x5 = 0" | (c6) "x6 = 0" | (c7) "x7 = 0" | (c8) "x8 = 0"
    by (auto simp: eq)
  then show ?thesis
  proof cases
    case c0
    have zi: "py_index b 0 = Some 0" using blank_index [OF b, of 0] c0 by (simp add: eq)
    have w: "legal_walk 0 [3, 6, 7, 8]" "walk b 0 [3, 6, 7, 8] = [x3, x1, x2, x6, x4, x5, x7, x8, x0]"
      using blank_walk_0 [of x0 x1 x2 x3 x4 x5 x6 x7 x8] by (simp_all add: eq)
    have r: "reachable b [x3, x1, x2, x6, x4, x5, x7, x8, x0] \<and> is_board [x3, x1, x2, x6, x4, x5, x7, x8, x0]"
      using walk_reachable [OF b zi w(1)] by (simp only: w(2))
    show ?thesis
      using r by (intro exI [of _ "[x3, x1, x2, x6, x4, x5, x7, x8, x0]"]) (simp add: c0)
  next
    case c1
    have zi: "py_index b 0 = Some 1" using blank_index [OF b, of 1] c1 by (simp add: eq)
    have w: "legal_walk 1 [4, 7, 8]" "walk b 1 [4, 7, 8] = [x0, x4, x2, x3, x7, x5, x6, x8, x1]"
      using blank_walk_1 [of x0 x1 x2 x3 x4 x5 x6 x7 x8] by (simp_all add: eq)
    have r: "reachable b [x0, x4, x2, x3, x7, x5, x6, x8, x1] \<and> is_board [x0, x4, x2, x3, x7, x5, x6, x8, x1]"
      using walk_reachable [OF b zi w(1)] by (simp only: w(2))
    show ?thesis
      using r by (intro exI [of _ "[x0, x4, x2, x3, x7, x5, x6, x8, x1]"]) (simp add: c1)
  next
    case c2
    have zi: "py_index b 0 = Some 2" using blank_index [OF b, of 2] c2 by (simp add: eq)
    have w: "legal_walk 2 [5, 8]" "walk b 2 [5, 8] = [x0, x1, x5, x3, x4, x8, x6, x7, x2]"
      using blank_walk_2 [of x0 x1 x2 x3 x4 x5 x6 x7 x8] by (simp_all add: eq)
    have r: "reachable b [x0, x1, x5, x3, x4, x8, x6, x7, x2] \<and> is_board [x0, x1, x5, x3, x4, x8, x6, x7, x2]"
      using walk_reachable [OF b zi w(1)] by (simp only: w(2))
    show ?thesis
      using r by (intro exI [of _ "[x0, x1, x5, x3, x4, x8, x6, x7, x2]"]) (simp add: c2)
  next
    case c3
    have zi: "py_index b 0 = Some 3" using blank_index [OF b, of 3] c3 by (simp add: eq)
    have w: "legal_walk 3 [6, 7, 8]" "walk b 3 [6, 7, 8] = [x0, x1, x2, x6, x4, x5, x7, x8, x3]"
      using blank_walk_3 [of x0 x1 x2 x3 x4 x5 x6 x7 x8] by (simp_all add: eq)
    have r: "reachable b [x0, x1, x2, x6, x4, x5, x7, x8, x3] \<and> is_board [x0, x1, x2, x6, x4, x5, x7, x8, x3]"
      using walk_reachable [OF b zi w(1)] by (simp only: w(2))
    show ?thesis
      using r by (intro exI [of _ "[x0, x1, x2, x6, x4, x5, x7, x8, x3]"]) (simp add: c3)
  next
    case c4
    have zi: "py_index b 0 = Some 4" using blank_index [OF b, of 4] c4 by (simp add: eq)
    have w: "legal_walk 4 [7, 8]" "walk b 4 [7, 8] = [x0, x1, x2, x3, x7, x5, x6, x8, x4]"
      using blank_walk_4 [of x0 x1 x2 x3 x4 x5 x6 x7 x8] by (simp_all add: eq)
    have r: "reachable b [x0, x1, x2, x3, x7, x5, x6, x8, x4] \<and> is_board [x0, x1, x2, x3, x7, x5, x6, x8, x4]"
      using walk_reachable [OF b zi w(1)] by (simp only: w(2))
    show ?thesis
      using r by (intro exI [of _ "[x0, x1, x2, x3, x7, x5, x6, x8, x4]"]) (simp add: c4)
  next
    case c5
    have zi: "py_index b 0 = Some 5" using blank_index [OF b, of 5] c5 by (simp add: eq)
    have w: "legal_walk 5 [8]" "walk b 5 [8] = [x0, x1, x2, x3, x4, x8, x6, x7, x5]"
      using blank_walk_5 [of x0 x1 x2 x3 x4 x5 x6 x7 x8] by (simp_all add: eq)
    have r: "reachable b [x0, x1, x2, x3, x4, x8, x6, x7, x5] \<and> is_board [x0, x1, x2, x3, x4, x8, x6, x7, x5]"
      using walk_reachable [OF b zi w(1)] by (simp only: w(2))
    show ?thesis
      using r by (intro exI [of _ "[x0, x1, x2, x3, x4, x8, x6, x7, x5]"]) (simp add: c5)
  next
    case c6
    have zi: "py_index b 0 = Some 6" using blank_index [OF b, of 6] c6 by (simp add: eq)
    have w: "legal_walk 6 [7, 8]" "walk b 6 [7, 8] = [x0, x1, x2, x3, x4, x5, x7, x8, x6]"
      using blank_walk_6 [of x0 x1 x2 x3 x4 x5 x6 x7 x8] by (simp_all add: eq)
    have r: "reachable b [x0, x1, x2, x3, x4, x5, x7, x8, x6] \<and> is_board [x0, x1, x2, x3, x4, x5, x7, x8, x6]"
      using walk_reachable [OF b zi w(1)] by (simp only: w(2))
    show ?thesis
      using r by (intro exI [of _ "[x0, x1, x2, x3, x4, x5, x7, x8, x6]"]) (simp add: c6)
  next
    case c7
    have zi: "py_index b 0 = Some 7" using blank_index [OF b, of 7] c7 by (simp add: eq)
    have w: "legal_walk 7 [8]" "walk b 7 [8] = [x0, x1, x2, x3, x4, x5, x6, x8, x7]"
      using blank_walk_7 [of x0 x1 x2 x3 x4 x5 x6 x7 x8] by (simp_all add: eq)
    have r: "reachable b [x0, x1, x2, x3, x4, x5, x6, x8, x7] \<and> is_board [x0, x1, x2, x3, x4, x5, x6, x8, x7]"
      using walk_reachable [OF b zi w(1)] by (simp only: w(2))
    show ?thesis
      using r by (intro exI [of _ "[x0, x1, x2, x3, x4, x5, x6, x8, x7]"]) (simp add: c7)
  next
    case c8
    then have "b ! 8 = 0" by (simp add: eq)
    with b show ?thesis using reachable_refl [of b] by blast
  qed
qed

lemma layer_1:
  assumes b: "is_board b" and z: "b ! 8 = 0"
  shows "\<exists>b'. reachable b b' \<and> is_board b' \<and> b' ! 8 = 0 \<and> take 1 b' = [1]"
proof -
  from b obtain x0 x1 x2 x3 x4 x5 x6 x7 x8 where eq: "b = [x0, x1, x2, x3, x4, x5, x6, x7, x8]"
    using length9 [of b] unfolding is_board_def by blast
  have x8: "x8 = 0" using z by (simp add: eq)
  have "1 \<in> set b" using b by (simp add: is_board_def)
  then consider (c0) "x0 = 1" | (c1) "x1 = 1" | (c2) "x2 = 1" | (c3) "x3 = 1" | (c4) "x4 = 1" | (c5) "x5 = 1" | (c6) "x6 = 1" | (c7) "x7 = 1"
    using x8 by (auto simp: eq)
  then show ?thesis
  proof cases
    case c0
    have r: "reachable b [x0, x1, x2, x3, x4, x5, x6, x7, x8] \<and> is_board [x0, x1, x2, x3, x4, x5, x6, x7, x8]"
      using b reachable_refl [of b] by (simp add: eq)
    show ?thesis
      using r by (intro exI [of _ "[x0, x1, x2, x3, x4, x5, x6, x7, x8]"]) (simp add: x8 c0)
  next
    case c1
    have w: "legal_walk 8 [5, 4, 3, 0, 1, 4, 7, 8]" "walk b 8 [5, 4, 3, 0, 1, 4, 7, 8] = [x1, x3, x2, x0, x7, x4, x6, x5, x8]"
      using tile_walk_1_1 [of x0 x1 x2 x3 x4 x5 x6 x7 x8] by (simp_all add: eq)
    have r: "reachable b [x1, x3, x2, x0, x7, x4, x6, x5, x8] \<and> is_board [x1, x3, x2, x0, x7, x4, x6, x5, x8]"
      using walk_from_8 [OF b z w(1)] by (simp only: w(2))
    show ?thesis
      using r by (intro exI [of _ "[x1, x3, x2, x0, x7, x4, x6, x5, x8]"]) (simp add: x8 c1)
  next
    case c2
    have w: "legal_walk 8 [5, 4, 1, 2, 5, 4, 3, 0, 1, 4, 7, 8]" "walk b 8 [5, 4, 1, 2, 5, 4, 3, 0, 1, 4, 7, 8] = [x2, x3, x4, x0, x7, x1, x6, x5, x8]"
      using tile_walk_1_2 [of x0 x1 x2 x3 x4 x5 x6 x7 x8] by (simp_all add: eq)
    have r: "reachable b [x2, x3, x4, x0, x7, x1, x6, x5, x8] \<and> is_board [x2, x3, x4, x0, x7, x1, x6, x5, x8]"
      using walk_from_8 [OF b z w(1)] by (simp only: w(2))
    show ?thesis
      using r by (intro exI [of _ "[x2, x3, x4, x0, x7, x1, x6, x5, x8]"]) (simp add: x8 c2)
  next
    case c3
    have w: "legal_walk 8 [5, 2, 1, 0, 3, 6, 7, 8]" "walk b 8 [5, 2, 1, 0, 3, 6, 7, 8] = [x3, x0, x1, x6, x4, x2, x7, x5, x8]"
      using tile_walk_1_3 [of x0 x1 x2 x3 x4 x5 x6 x7 x8] by (simp_all add: eq)
    have r: "reachable b [x3, x0, x1, x6, x4, x2, x7, x5, x8] \<and> is_board [x3, x0, x1, x6, x4, x2, x7, x5, x8]"
      using walk_from_8 [OF b z w(1)] by (simp only: w(2))
    show ?thesis
      using r by (intro exI [of _ "[x3, x0, x1, x6, x4, x2, x7, x5, x8]"]) (simp add: x8 c3)
  next
    case c4
    have w: "legal_walk 8 [5, 2, 1, 4, 3, 0, 1, 4, 7, 8]" "walk b 8 [5, 2, 1, 4, 3, 0, 1, 4, 7, 8] = [x4, x3, x1, x0, x7, x2, x6, x5, x8]"
      using tile_walk_1_4 [of x0 x1 x2 x3 x4 x5 x6 x7 x8] by (simp_all add: eq)
    have r: "reachable b [x4, x3, x1, x0, x7, x2, x6, x5, x8] \<and> is_board [x4, x3, x1, x0, x7, x2, x6, x5, x8]"
      using walk_from_8 [OF b z w(1)] by (simp only: w(2))
    show ?thesis
      using r by (intro exI [of _ "[x4, x3, x1, x0, x7, x2, x6, x5, x8]"]) (simp add: x8 c4)
  next
    case c5
    have w: "legal_walk 8 [7, 4, 5, 2, 1, 4, 3, 0, 1, 4, 7, 8]" "walk b 8 [7, 4, 5, 2, 1, 4, 3, 0, 1, 4, 7, 8] = [x5, x3, x1, x0, x4, x2, x6, x7, x8]"
      using tile_walk_1_5 [of x0 x1 x2 x3 x4 x5 x6 x7 x8] by (simp_all add: eq)
    have r: "reachable b [x5, x3, x1, x0, x4, x2, x6, x7, x8] \<and> is_board [x5, x3, x1, x0, x4, x2, x6, x7, x8]"
      using walk_from_8 [OF b z w(1)] by (simp only: w(2))
    show ?thesis
      using r by (intro exI [of _ "[x5, x3, x1, x0, x4, x2, x6, x7, x8]"]) (simp add: x8 c5)
  next
    case c6
    have w: "legal_walk 8 [5, 4, 3, 6, 7, 4, 1, 0, 3, 6, 7, 8]" "walk b 8 [5, 4, 3, 6, 7, 4, 1, 0, 3, 6, 7, 8] = [x6, x0, x2, x7, x1, x4, x3, x5, x8]"
      using tile_walk_1_6 [of x0 x1 x2 x3 x4 x5 x6 x7 x8] by (simp_all add: eq)
    have r: "reachable b [x6, x0, x2, x7, x1, x4, x3, x5, x8] \<and> is_board [x6, x0, x2, x7, x1, x4, x3, x5, x8]"
      using walk_from_8 [OF b z w(1)] by (simp only: w(2))
    show ?thesis
      using r by (intro exI [of _ "[x6, x0, x2, x7, x1, x4, x3, x5, x8]"]) (simp add: x8 c6)
  next
    case c7
    have w: "legal_walk 8 [5, 4, 7, 6, 3, 4, 1, 0, 3, 6, 7, 8]" "walk b 8 [5, 4, 7, 6, 3, 4, 1, 0, 3, 6, 7, 8] = [x7, x0, x2, x3, x1, x4, x6, x5, x8]"
      using tile_walk_1_7 [of x0 x1 x2 x3 x4 x5 x6 x7 x8] by (simp_all add: eq)
    have r: "reachable b [x7, x0, x2, x3, x1, x4, x6, x5, x8] \<and> is_board [x7, x0, x2, x3, x1, x4, x6, x5, x8]"
      using walk_from_8 [OF b z w(1)] by (simp only: w(2))
    show ?thesis
      using r by (intro exI [of _ "[x7, x0, x2, x3, x1, x4, x6, x5, x8]"]) (simp add: x8 c7)
  qed
qed

lemma layer_2:
  assumes b: "is_board b" and z: "b ! 8 = 0" and t: "take 1 b = [1]"
  shows "\<exists>b'. reachable b b' \<and> is_board b' \<and> b' ! 8 = 0 \<and> take 2 b' = [1, 2]"
proof -
  from b obtain x0 x1 x2 x3 x4 x5 x6 x7 x8 where eq: "b = [x0, x1, x2, x3, x4, x5, x6, x7, x8]"
    using length9 [of b] unfolding is_board_def by blast
  have x8: "x8 = 0" using z by (simp add: eq)
  have pre: "x0 = 1" using t by (simp_all add: eq)
  have "2 \<in> set b" using b by (simp add: is_board_def)
  then consider (c1) "x1 = 2" | (c2) "x2 = 2" | (c3) "x3 = 2" | (c4) "x4 = 2" | (c5) "x5 = 2" | (c6) "x6 = 2" | (c7) "x7 = 2"
    using x8 pre by (auto simp: eq)
  then show ?thesis
  proof cases
    case c1
    have r: "reachable b [x0, x1, x2, x3, x4, x5, x6, x7, x8] \<and> is_board [x0, x1, x2, x3, x4, x5, x6, x7, x8]"
      using b reachable_refl [of b] by (simp add: eq)
    show ?thesis
      using r by (intro exI [of _ "[x0, x1, x2, x3, x4, x5, x6, x7, x8]"]) (simp add: x8 pre c1)
  next
    case c2
    have w: "legal_walk 8 [5, 4, 1, 2, 5, 8]" "walk b 8 [5, 4, 1, 2, 5, 8] = [x0, x2, x4, x3, x1, x5, x6, x7, x8]"
      using tile_walk_2_2 [of x0 x1 x2 x3 x4 x5 x6 x7 x8] by (simp_all add: eq)
    have r: "reachable b [x0, x2, x4, x3, x1, x5, x6, x7, x8] \<and> is_board [x0, x2, x4, x3, x1, x5, x6, x7, x8]"
      using walk_from_8 [OF b z w(1)] by (simp only: w(2))
    show ?thesis
      using r by (intro exI [of _ "[x0, x2, x4, x3, x1, x5, x6, x7, x8]"]) (simp add: x8 pre c2)
  next
    case c3
    have w: "legal_walk 8 [5, 4, 3, 6, 7, 8, 5, 2, 1, 4, 7, 8]" "walk b 8 [5, 4, 3, 6, 7, 8, 5, 2, 1, 4, 7, 8] = [x0, x3, x1, x6, x5, x2, x7, x4, x8]"
      using tile_walk_2_3 [of x0 x1 x2 x3 x4 x5 x6 x7 x8] by (simp_all add: eq)
    have r: "reachable b [x0, x3, x1, x6, x5, x2, x7, x4, x8] \<and> is_board [x0, x3, x1, x6, x5, x2, x7, x4, x8]"
      using walk_from_8 [OF b z w(1)] by (simp only: w(2))
    show ?thesis
      using r by (intro exI [of _ "[x0, x3, x1, x6, x5, x2, x7, x4, x8]"]) (simp add: x8 pre c3)
  next
    case c4
    have w: "legal_walk 8 [5, 2, 1, 4, 7, 8]" "walk b 8 [5, 2, 1, 4, 7, 8] = [x0, x4, x1, x3, x7, x2, x6, x5, x8]"
      using tile_walk_2_4 [of x0 x1 x2 x3 x4 x5 x6 x7 x8] by (simp_all add: eq)
    have r: "reachable b [x0, x4, x1, x3, x7, x2, x6, x5, x8] \<and> is_board [x0, x4, x1, x3, x7, x2, x6, x5, x8]"
      using walk_from_8 [OF b z w(1)] by (simp only: w(2))
    show ?thesis
      using r by (intro exI [of _ "[x0, x4, x1, x3, x7, x2, x6, x5, x8]"]) (simp add: x8 pre c4)
  next
    case c5
    have w: "legal_walk 8 [7, 4, 5, 2, 1, 4, 7, 8]" "walk b 8 [7, 4, 5, 2, 1, 4, 7, 8] = [x0, x5, x1, x3, x4, x2, x6, x7, x8]"
      using tile_walk_2_5 [of x0 x1 x2 x3 x4 x5 x6 x7 x8] by (simp_all add: eq)
    have r: "reachable b [x0, x5, x1, x3, x4, x2, x6, x7, x8] \<and> is_board [x0, x5, x1, x3, x4, x2, x6, x7, x8]"
      using walk_from_8 [OF b z w(1)] by (simp only: w(2))
    show ?thesis
      using r by (intro exI [of _ "[x0, x5, x1, x3, x4, x2, x6, x7, x8]"]) (simp add: x8 pre c5)
  next
    case c6
    have w: "legal_walk 8 [7, 6, 3, 4, 7, 8, 5, 2, 1, 4, 7, 8]" "walk b 8 [7, 6, 3, 4, 7, 8, 5, 2, 1, 4, 7, 8] = [x0, x6, x1, x4, x7, x2, x3, x5, x8]"
      using tile_walk_2_6 [of x0 x1 x2 x3 x4 x5 x6 x7 x8] by (simp_all add: eq)
    have r: "reachable b [x0, x6, x1, x4, x7, x2, x3, x5, x8] \<and> is_board [x0, x6, x1, x4, x7, x2, x3, x5, x8]"
      using walk_from_8 [OF b z w(1)] by (simp only: w(2))
    show ?thesis
      using r by (intro exI [of _ "[x0, x6, x1, x4, x7, x2, x3, x5, x8]"]) (simp add: x8 pre c6)
  next
    case c7
    have w: "legal_walk 8 [5, 4, 7, 8, 5, 2, 1, 4, 7, 8]" "walk b 8 [5, 4, 7, 8, 5, 2, 1, 4, 7, 8] = [x0, x7, x1, x3, x5, x2, x6, x4, x8]"
      using tile_walk_2_7 [of x0 x1 x2 x3 x4 x5 x6 x7 x8] by (simp_all add: eq)
    have r: "reachable b [x0, x7, x1, x3, x5, x2, x6, x4, x8] \<and> is_board [x0, x7, x1, x3, x5, x2, x6, x4, x8]"
      using walk_from_8 [OF b z w(1)] by (simp only: w(2))
    show ?thesis
      using r by (intro exI [of _ "[x0, x7, x1, x3, x5, x2, x6, x4, x8]"]) (simp add: x8 pre c7)
  qed
qed

lemma layer_3:
  assumes b: "is_board b" and z: "b ! 8 = 0" and t: "take 2 b = [1, 2]"
  shows "\<exists>b'. reachable b b' \<and> is_board b' \<and> b' ! 8 = 0 \<and> take 3 b' = [1, 2, 3]"
proof -
  from b obtain x0 x1 x2 x3 x4 x5 x6 x7 x8 where eq: "b = [x0, x1, x2, x3, x4, x5, x6, x7, x8]"
    using length9 [of b] unfolding is_board_def by blast
  have x8: "x8 = 0" using z by (simp add: eq)
  have pre: "x0 = 1" "x1 = 2" using t by (simp_all add: eq)
  have "3 \<in> set b" using b by (simp add: is_board_def)
  then consider (c2) "x2 = 3" | (c3) "x3 = 3" | (c4) "x4 = 3" | (c5) "x5 = 3" | (c6) "x6 = 3" | (c7) "x7 = 3"
    using x8 pre by (auto simp: eq)
  then show ?thesis
  proof cases
    case c2
    have r: "reachable b [x0, x1, x2, x3, x4, x5, x6, x7, x8] \<and> is_board [x0, x1, x2, x3, x4, x5, x6, x7, x8]"
      using b reachable_refl [of b] by (simp add: eq)
    show ?thesis
      using r by (intro exI [of _ "[x0, x1, x2, x3, x4, x5, x6, x7, x8]"]) (simp add: x8 pre c2)
  next
    case c3
    have w: "legal_walk 8 [5, 2, 1, 4, 3, 6, 7, 8, 5, 4, 1, 2, 5, 8]" "walk b 8 [5, 2, 1, 4, 3, 6, 7, 8, 5, 4, 1, 2, 5, 8] = [x0, x1, x3, x6, x4, x2, x7, x5, x8]"
      using tile_walk_3_3 [of x0 x1 x2 x3 x4 x5 x6 x7 x8] by (simp_all add: eq)
    have r: "reachable b [x0, x1, x3, x6, x4, x2, x7, x5, x8] \<and> is_board [x0, x1, x3, x6, x4, x2, x7, x5, x8]"
      using walk_from_8 [OF b z w(1)] by (simp only: w(2))
    show ?thesis
      using r by (intro exI [of _ "[x0, x1, x3, x6, x4, x2, x7, x5, x8]"]) (simp add: x8 pre c3)
  next
    case c4
    have w: "legal_walk 8 [5, 4, 3, 0, 1, 2, 5, 4, 1, 0, 3, 6, 7, 8]" "walk b 8 [5, 4, 3, 0, 1, 2, 5, 4, 1, 0, 3, 6, 7, 8] = [x0, x1, x4, x6, x2, x3, x7, x5, x8]"
      using tile_walk_3_4 [of x0 x1 x2 x3 x4 x5 x6 x7 x8] by (simp_all add: eq)
    have r: "reachable b [x0, x1, x4, x6, x2, x3, x7, x5, x8] \<and> is_board [x0, x1, x4, x6, x2, x3, x7, x5, x8]"
      using walk_from_8 [OF b z w(1)] by (simp only: w(2))
    show ?thesis
      using r by (intro exI [of _ "[x0, x1, x4, x6, x2, x3, x7, x5, x8]"]) (simp add: x8 pre c4)
  next
    case c5
    have w: "legal_walk 8 [5, 2, 1, 4, 5, 8, 7, 4, 1, 2, 5, 8]" "walk b 8 [5, 2, 1, 4, 5, 8, 7, 4, 1, 2, 5, 8] = [x0, x1, x5, x3, x4, x7, x6, x2, x8]"
      using tile_walk_3_5 [of x0 x1 x2 x3 x4 x5 x6 x7 x8] by (simp_all add: eq)
    have r: "reachable b [x0, x1, x5, x3, x4, x7, x6, x2, x8] \<and> is_board [x0, x1, x5, x3, x4, x7, x6, x2, x8]"
      using walk_from_8 [OF b z w(1)] by (simp only: w(2))
    show ?thesis
      using r by (intro exI [of _ "[x0, x1, x5, x3, x4, x7, x6, x2, x8]"]) (simp add: x8 pre c5)
  next
    case c6
    have w: "legal_walk 8 [5, 2, 1, 4, 7, 6, 3, 4, 7, 8, 5, 4, 1, 2, 5, 8]" "walk b 8 [5, 2, 1, 4, 7, 6, 3, 4, 7, 8, 5, 4, 1, 2, 5, 8] = [x0, x1, x6, x7, x4, x2, x3, x5, x8]"
      using tile_walk_3_6 [of x0 x1 x2 x3 x4 x5 x6 x7 x8] by (simp_all add: eq)
    have r: "reachable b [x0, x1, x6, x7, x4, x2, x3, x5, x8] \<and> is_board [x0, x1, x6, x7, x4, x2, x3, x5, x8]"
      using walk_from_8 [OF b z w(1)] by (simp only: w(2))
    show ?thesis
      using r by (intro exI [of _ "[x0, x1, x6, x7, x4, x2, x3, x5, x8]"]) (simp add: x8 pre c6)
  next
    case c7
    have w: "legal_walk 8 [5, 2, 1, 4, 7, 8, 5, 4, 1, 2, 5, 8]" "walk b 8 [5, 2, 1, 4, 7, 8, 5, 4, 1, 2, 5, 8] = [x0, x1, x7, x3, x4, x2, x6, x5, x8]"
      using tile_walk_3_7 [of x0 x1 x2 x3 x4 x5 x6 x7 x8] by (simp_all add: eq)
    have r: "reachable b [x0, x1, x7, x3, x4, x2, x6, x5, x8] \<and> is_board [x0, x1, x7, x3, x4, x2, x6, x5, x8]"
      using walk_from_8 [OF b z w(1)] by (simp only: w(2))
    show ?thesis
      using r by (intro exI [of _ "[x0, x1, x7, x3, x4, x2, x6, x5, x8]"]) (simp add: x8 pre c7)
  qed
qed

lemma layer_4:
  assumes b: "is_board b" and z: "b ! 8 = 0" and t: "take 3 b = [1, 2, 3]"
  shows "\<exists>b'. reachable b b' \<and> is_board b' \<and> b' ! 8 = 0 \<and> take 4 b' = [1, 2, 3, 4]"
proof -
  from b obtain x0 x1 x2 x3 x4 x5 x6 x7 x8 where eq: "b = [x0, x1, x2, x3, x4, x5, x6, x7, x8]"
    using length9 [of b] unfolding is_board_def by blast
  have x8: "x8 = 0" using z by (simp add: eq)
  have pre: "x0 = 1" "x1 = 2" "x2 = 3" using t by (simp_all add: eq)
  have "4 \<in> set b" using b by (simp add: is_board_def)
  then consider (c3) "x3 = 4" | (c4) "x4 = 4" | (c5) "x5 = 4" | (c6) "x6 = 4" | (c7) "x7 = 4"
    using x8 pre by (auto simp: eq)
  then show ?thesis
  proof cases
    case c3
    have r: "reachable b [x0, x1, x2, x3, x4, x5, x6, x7, x8] \<and> is_board [x0, x1, x2, x3, x4, x5, x6, x7, x8]"
      using b reachable_refl [of b] by (simp add: eq)
    show ?thesis
      using r by (intro exI [of _ "[x0, x1, x2, x3, x4, x5, x6, x7, x8]"]) (simp add: x8 pre c3)
  next
    case c4
    have w: "legal_walk 8 [7, 6, 3, 4, 7, 8]" "walk b 8 [7, 6, 3, 4, 7, 8] = [x0, x1, x2, x4, x6, x5, x3, x7, x8]"
      using tile_walk_4_4 [of x0 x1 x2 x3 x4 x5 x6 x7 x8] by (simp_all add: eq)
    have r: "reachable b [x0, x1, x2, x4, x6, x5, x3, x7, x8] \<and> is_board [x0, x1, x2, x4, x6, x5, x3, x7, x8]"
      using walk_from_8 [OF b z w(1)] by (simp only: w(2))
    show ?thesis
      using r by (intro exI [of _ "[x0, x1, x2, x4, x6, x5, x3, x7, x8]"]) (simp add: x8 pre c4)
  next
    case c5
    have w: "legal_walk 8 [7, 4, 5, 8, 7, 6, 3, 4, 7, 8]" "walk b 8 [7, 4, 5, 8, 7, 6, 3, 4, 7, 8] = [x0, x1, x2, x5, x6, x7, x3, x4, x8]"
      using tile_walk_4_5 [of x0 x1 x2 x3 x4 x5 x6 x7 x8] by (simp_all add: eq)
    have r: "reachable b [x0, x1, x2, x5, x6, x7, x3, x4, x8] \<and> is_board [x0, x1, x2, x5, x6, x7, x3, x4, x8]"
      using walk_from_8 [OF b z w(1)] by (simp only: w(2))
    show ?thesis
      using r by (intro exI [of _ "[x0, x1, x2, x5, x6, x7, x3, x4, x8]"]) (simp add: x8 pre c5)
  next
    case c6
    have w: "legal_walk 8 [5, 4, 3, 6, 7, 8]" "walk b 8 [5, 4, 3, 6, 7, 8] = [x0, x1, x2, x6, x3, x4, x7, x5, x8]"
      using tile_walk_4_6 [of x0 x1 x2 x3 x4 x5 x6 x7 x8] by (simp_all add: eq)
    have r: "reachable b [x0, x1, x2, x6, x3, x4, x7, x5, x8] \<and> is_board [x0, x1, x2, x6, x3, x4, x7, x5, x8]"
      using walk_from_8 [OF b z w(1)] by (simp only: w(2))
    show ?thesis
      using r by (intro exI [of _ "[x0, x1, x2, x6, x3, x4, x7, x5, x8]"]) (simp add: x8 pre c6)
  next
    case c7
    have w: "legal_walk 8 [5, 4, 7, 6, 3, 4, 7, 8]" "walk b 8 [5, 4, 7, 6, 3, 4, 7, 8] = [x0, x1, x2, x7, x6, x4, x3, x5, x8]"
      using tile_walk_4_7 [of x0 x1 x2 x3 x4 x5 x6 x7 x8] by (simp_all add: eq)
    have r: "reachable b [x0, x1, x2, x7, x6, x4, x3, x5, x8] \<and> is_board [x0, x1, x2, x7, x6, x4, x3, x5, x8]"
      using walk_from_8 [OF b z w(1)] by (simp only: w(2))
    show ?thesis
      using r by (intro exI [of _ "[x0, x1, x2, x7, x6, x4, x3, x5, x8]"]) (simp add: x8 pre c7)
  qed
qed

lemma layer_5:
  assumes b: "is_board b" and z: "b ! 8 = 0" and t: "take 4 b = [1, 2, 3, 4]"
  shows "\<exists>b'. reachable b b' \<and> is_board b' \<and> b' ! 8 = 0 \<and> take 5 b' = [1, 2, 3, 4, 5]"
proof -
  from b obtain x0 x1 x2 x3 x4 x5 x6 x7 x8 where eq: "b = [x0, x1, x2, x3, x4, x5, x6, x7, x8]"
    using length9 [of b] unfolding is_board_def by blast
  have x8: "x8 = 0" using z by (simp add: eq)
  have pre: "x0 = 1" "x1 = 2" "x2 = 3" "x3 = 4" using t by (simp_all add: eq)
  have "5 \<in> set b" using b by (simp add: is_board_def)
  then consider (c4) "x4 = 5" | (c5) "x5 = 5" | (c6) "x6 = 5" | (c7) "x7 = 5"
    using x8 pre by (auto simp: eq)
  then show ?thesis
  proof cases
    case c4
    have r: "reachable b [x0, x1, x2, x3, x4, x5, x6, x7, x8] \<and> is_board [x0, x1, x2, x3, x4, x5, x6, x7, x8]"
      using b reachable_refl [of b] by (simp add: eq)
    show ?thesis
      using r by (intro exI [of _ "[x0, x1, x2, x3, x4, x5, x6, x7, x8]"]) (simp add: x8 pre c4)
  next
    case c5
    have w: "legal_walk 8 [7, 4, 5, 8]" "walk b 8 [7, 4, 5, 8] = [x0, x1, x2, x3, x5, x7, x6, x4, x8]"
      using tile_walk_5_5 [of x0 x1 x2 x3 x4 x5 x6 x7 x8] by (simp_all add: eq)
    have r: "reachable b [x0, x1, x2, x3, x5, x7, x6, x4, x8] \<and> is_board [x0, x1, x2, x3, x5, x7, x6, x4, x8]"
      using walk_from_8 [OF b z w(1)] by (simp only: w(2))
    show ?thesis
      using r by (intro exI [of _ "[x0, x1, x2, x3, x5, x7, x6, x4, x8]"]) (simp add: x8 pre c5)
  next
    case c6
    have w: "legal_walk 8 [5, 2, 1, 0, 3, 6, 7, 4, 3, 0, 1, 2, 5, 8]" "walk b 8 [5, 2, 1, 0, 3, 6, 7, 4, 3, 0, 1, 2, 5, 8] = [x0, x1, x2, x3, x6, x5, x7, x4, x8]"
      using tile_walk_5_6 [of x0 x1 x2 x3 x4 x5 x6 x7 x8] by (simp_all add: eq)
    have r: "reachable b [x0, x1, x2, x3, x6, x5, x7, x4, x8] \<and> is_board [x0, x1, x2, x3, x6, x5, x7, x4, x8]"
      using walk_from_8 [OF b z w(1)] by (simp only: w(2))
    show ?thesis
      using r by (intro exI [of _ "[x0, x1, x2, x3, x6, x5, x7, x4, x8]"]) (simp add: x8 pre c6)
  next
    case c7
    have w: "legal_walk 8 [5, 4, 7, 8]" "walk b 8 [5, 4, 7, 8] = [x0, x1, x2, x3, x7, x4, x6, x5, x8]"
      using tile_walk_5_7 [of x0 x1 x2 x3 x4 x5 x6 x7 x8] by (simp_all add: eq)
    have r: "reachable b [x0, x1, x2, x3, x7, x4, x6, x5, x8] \<and> is_board [x0, x1, x2, x3, x7, x4, x6, x5, x8]"
      using walk_from_8 [OF b z w(1)] by (simp only: w(2))
    show ?thesis
      using r by (intro exI [of _ "[x0, x1, x2, x3, x7, x4, x6, x5, x8]"]) (simp add: x8 pre c7)
  qed
qed

lemma layer_6:
  assumes b: "is_board b" and z: "b ! 8 = 0" and t: "take 5 b = [1, 2, 3, 4, 5]"
  shows "\<exists>b'. reachable b b' \<and> is_board b' \<and> b' ! 8 = 0 \<and> take 6 b' = [1, 2, 3, 4, 5, 6]"
proof -
  from b obtain x0 x1 x2 x3 x4 x5 x6 x7 x8 where eq: "b = [x0, x1, x2, x3, x4, x5, x6, x7, x8]"
    using length9 [of b] unfolding is_board_def by blast
  have x8: "x8 = 0" using z by (simp add: eq)
  have pre: "x0 = 1" "x1 = 2" "x2 = 3" "x3 = 4" "x4 = 5" using t by (simp_all add: eq)
  have "6 \<in> set b" using b by (simp add: is_board_def)
  then consider (c5) "x5 = 6" | (c6) "x6 = 6" | (c7) "x7 = 6"
    using x8 pre by (auto simp: eq)
  then show ?thesis
  proof cases
    case c5
    have r: "reachable b [x0, x1, x2, x3, x4, x5, x6, x7, x8] \<and> is_board [x0, x1, x2, x3, x4, x5, x6, x7, x8]"
      using b reachable_refl [of b] by (simp add: eq)
    show ?thesis
      using r by (intro exI [of _ "[x0, x1, x2, x3, x4, x5, x6, x7, x8]"]) (simp add: x8 pre c5)
  next
    case c6
    have w: "legal_walk 8 [7, 6, 3, 4, 7, 8, 5, 4, 3, 6, 7, 8]" "walk b 8 [7, 6, 3, 4, 7, 8, 5, 4, 3, 6, 7, 8] = [x0, x1, x2, x3, x4, x6, x7, x5, x8]"
      using tile_walk_6_6 [of x0 x1 x2 x3 x4 x5 x6 x7 x8] by (simp_all add: eq)
    have r: "reachable b [x0, x1, x2, x3, x4, x6, x7, x5, x8] \<and> is_board [x0, x1, x2, x3, x4, x6, x7, x5, x8]"
      using walk_from_8 [OF b z w(1)] by (simp only: w(2))
    show ?thesis
      using r by (intro exI [of _ "[x0, x1, x2, x3, x4, x6, x7, x5, x8]"]) (simp add: x8 pre c6)
  next
    case c7
    have w: "legal_walk 8 [7, 6, 3, 4, 5, 8, 7, 4, 3, 6, 7, 8]" "walk b 8 [7, 6, 3, 4, 5, 8, 7, 4, 3, 6, 7, 8] = [x0, x1, x2, x3, x4, x7, x5, x6, x8]"
      using tile_walk_6_7 [of x0 x1 x2 x3 x4 x5 x6 x7 x8] by (simp_all add: eq)
    have r: "reachable b [x0, x1, x2, x3, x4, x7, x5, x6, x8] \<and> is_board [x0, x1, x2, x3, x4, x7, x5, x6, x8]"
      using walk_from_8 [OF b z w(1)] by (simp only: w(2))
    show ?thesis
      using r by (intro exI [of _ "[x0, x1, x2, x3, x4, x7, x5, x6, x8]"]) (simp add: x8 pre c7)
  qed
qed



subsection \<open>Every solvable Board reaches GOAL\<close>

lemma replay_board:
  "is_board a \<Longrightarrow> replay a ms = Inr (Some c) \<Longrightarrow>
   is_board c \<and> is_solvable_3x3 c = is_solvable_3x3 a"
proof (induction ms arbitrary: a)
  case Nil
  then show ?case by simp
next
  case (Cons m ms)
  from Cons.prems(2) obtain a' where m: "apply_move_by_tile_value a m = Inr (Some a')"
    and r: "replay a' ms = Inr (Some c)"
    by (auto split: sum.splits option.splits)
  from apply_move_board [OF Cons.prems(1) m] have a': "is_board a'" by simp
  from Cons.IH [OF a' r] apply_move_solvable [OF Cons.prems(1) m] show ?case by simp
qed

lemma reachable_board:
  "is_board a \<Longrightarrow> reachable a c \<Longrightarrow> is_board c \<and> is_solvable_3x3 c = is_solvable_3x3 a"
  unfolding reachable_def using replay_board by blast

lemma solvable_GOAL: "is_solvable_3x3 GOAL"
  by (simp add: is_solvable_3x3_def inversions_eq GOAL_def)

lemma last_two:
  assumes b: "is_board [1, 2, 3, 4, 5, 6, x, y, 0]" and s: "is_solvable_3x3 [1, 2, 3, 4, 5, 6, x, y, 0]"
  shows "[1, 2, 3, 4, 5, 6, x, y, 0] = GOAL"
proof -
  have "7 \<in> set [1, 2, 3, 4, 5, 6, x, y, 0]" "8 \<in> set [1, 2, 3, 4, 5, 6, x, y, 0]"
    using b by (simp_all add: is_board_def)
  then have "(x = 7 \<and> y = 8) \<or> (x = 8 \<and> y = 7)" by auto
  moreover have "\<not> is_solvable_3x3 [1, 2, 3, 4, 5, 6, 8, 7, 0]"
    by (simp add: is_solvable_3x3_def inversions_eq)
  ultimately show ?thesis using s by (auto simp: GOAL_def)
qed

lemma solve_exists:
  assumes b: "is_board b" and s: "is_solvable_3x3 b"
  shows "reachable b GOAL"
proof -
  from blank_to_8 [OF b] obtain b0 where r0: "reachable b b0" and b0: "is_board b0" "b0 ! 8 = 0"
    by blast
  from layer_1 [OF b0] obtain b1 where r1: "reachable b0 b1"
    and b1: "is_board b1" "b1 ! 8 = 0" "take 1 b1 = [1]" by blast
  from layer_2 [OF b1] obtain b2 where r2: "reachable b1 b2"
    and b2: "is_board b2" "b2 ! 8 = 0" "take 2 b2 = [1, 2]" by blast
  from layer_3 [OF b2] obtain b3 where r3: "reachable b2 b3"
    and b3: "is_board b3" "b3 ! 8 = 0" "take 3 b3 = [1, 2, 3]" by blast
  from layer_4 [OF b3] obtain b4 where r4: "reachable b3 b4"
    and b4: "is_board b4" "b4 ! 8 = 0" "take 4 b4 = [1, 2, 3, 4]" by blast
  from layer_5 [OF b4] obtain b5 where r5: "reachable b4 b5"
    and b5: "is_board b5" "b5 ! 8 = 0" "take 5 b5 = [1, 2, 3, 4, 5]" by blast
  from layer_6 [OF b5] obtain b6 where r6: "reachable b5 b6"
    and b6: "is_board b6" "b6 ! 8 = 0" "take 6 b6 = [1, 2, 3, 4, 5, 6]" by blast
  have r: "reachable b b6"
    using r0 r1 r2 r3 r4 r5 r6 by (blast intro: reachable_trans)
  from b6(1) obtain x0 x1 x2 x3 x4 x5 x6 x7 x8 where eq: "b6 = [x0, x1, x2, x3, x4, x5, x6, x7, x8]"
    using length9 [of b6] unfolding is_board_def by blast
  have shape: "b6 = [1, 2, 3, 4, 5, 6, x6, x7, 0]"
    using b6(2,3) by (simp add: eq)
  have "is_solvable_3x3 b6" using reachable_board [OF b r] s by simp
  then have "b6 = GOAL" using last_two [of x6 x7] b6(1) by (simp add: shape)
  with r show ?thesis by simp
qed

subsection \<open>Moves can be taken back\<close>

lemma swap_twice:
  "z < length b \<Longrightarrow> nb < length b \<Longrightarrow> swap_tiles (swap_tiles b z nb) nb z = b"
  by (auto simp: swap_tiles_def list_eq_iff_nth_eq nth_list_update)

lemma apply_move_back:
  assumes b: "is_board b" and m: "apply_move_by_tile_value b m = Inr (Some b')"
  shows "apply_move_by_tile_value b' m = Inr (Some b)"
proof -
  from apply_move_SomeD [OF m] obtain z nb where z: "py_index b 0 = Some z"
    and mi: "py_index b m = Some nb"
    and nb: "nb \<in> set (neighbors z)" and b': "b' = swap_tiles b z nb" by blast
  have len: "length b = 9" using b by (simp add: is_board_def)
  have z9: "z < 9" using py_index_Some [OF z] len by simp
  have nb9: "nb < 9" and ne: "nb \<noteq> z" using neighbors_bound [OF z9 nb] by simp_all
  have bm: "b ! nb = m" using py_index_Some [OF mi] by simp
  have bb': "is_board b'" unfolding b' by (rule swap_board [OF b z nb])
  have z': "py_index b' 0 = Some nb" unfolding b' by (rule swap_blank [OF b z nb])
  have "b' ! z = m" using bm z9 nb9 ne len by (simp add: b' swap_tiles_def)
  then have m': "py_index b' m = Some z"
    using py_index_distinct [of b' z] bb' z9 by (simp add: is_board_def)
  have undo: "swap_tiles b' nb z = b" unfolding b' using swap_twice [of z b nb] z9 nb9 len by simp
  show ?thesis
    using z' m' neighbors_sym [OF z9 nb] undo by (simp add: apply_move_by_tile_value_def)
qed

lemma replay_rev:
  "is_board b \<Longrightarrow> replay b ms = Inr (Some b') \<Longrightarrow> replay b' (rev ms) = Inr (Some b)"
proof (induction ms arbitrary: b)
  case Nil
  then show ?case by simp
next
  case (Cons m ms)
  from Cons.prems(2) obtain c where m: "apply_move_by_tile_value b m = Inr (Some c)"
    and r: "replay c ms = Inr (Some b')"
    by (auto split: sum.splits option.splits)
  from apply_move_board [OF Cons.prems(1) m] have c: "is_board c" by simp
  from Cons.IH [OF c r] apply_move_back [OF Cons.prems(1) m] show ?case
    by (simp add: replay_append)
qed

lemma reachable_sym: "is_board a \<Longrightarrow> reachable a c \<Longrightarrow> reachable c a"
  unfolding reachable_def using replay_rev by blast


lemma inversion_pairs_finite: "finite (inversion_pairs xs)"
proof (rule finite_subset)
  show "inversion_pairs xs \<subseteq> {..<length xs} \<times> {..<length xs}"
    by (auto simp: inversion_pairs_def)
qed simp

lemma inversion_pairs_Cons:
  "inversion_pairs (x # xs)
   = (\<lambda>j. (0, Suc j)) ` {j. j < length xs \<and> x > xs ! j}
     \<union> (\<lambda>p. (Suc (fst p), Suc (snd p))) ` inversion_pairs xs"
proof (rule set_eqI)
  fix p :: "nat \<times> nat"
  obtain i j where p: "p = (i, j)" by (cases p)
  show "p \<in> inversion_pairs (x # xs) \<longleftrightarrow>
        p \<in> (\<lambda>j. (0, Suc j)) ` {j. j < length xs \<and> x > xs ! j}
            \<union> (\<lambda>p. (Suc (fst p), Suc (snd p))) ` inversion_pairs xs"
  proof (cases j)
    case 0
    then show ?thesis by (auto simp: p inversion_pairs_def)
  next
    case (Suc j')
    show ?thesis
    proof (cases i)
      case 0
      then show ?thesis using Suc by (auto simp: p inversion_pairs_def)
    next
      case (Suc i')
      then show ?thesis using \<open>j = Suc j'\<close> by (auto simp: p inversion_pairs_def image_iff)
    qed
  qed
qed

lemma inv_count_card: "inv_count xs = int (card (inversion_pairs xs))"
proof (induction xs)
  case Nil
  then show ?case by (simp add: inversion_pairs_def)
next
  case (Cons x xs)
  let ?A = "(\<lambda>j. (0 :: nat, Suc j)) ` {j. j < length xs \<and> x > xs ! j}"
  let ?B = "(\<lambda>p. (Suc (fst p), Suc (snd p))) ` inversion_pairs xs"
  have fA: "finite ?A" by simp
  have fB: "finite ?B" using inversion_pairs_finite by simp
  have dis: "?A \<inter> ?B = {}" by auto
  have cA: "card ?A = length (filter (\<lambda>y. x > y) xs)"
  proof -
    have "card ?A = card {j. j < length xs \<and> x > xs ! j}"
      by (rule card_image) (simp add: inj_on_def)
    then show ?thesis by (simp add: length_filter_conv_card)
  qed
  have cB: "card ?B = card (inversion_pairs xs)"
    by (rule card_image) (auto simp: inj_on_def prod_eq_iff)
  have "card (inversion_pairs (x # xs)) = card ?A + card ?B"
    unfolding inversion_pairs_Cons by (rule card_Un_disjoint [OF fA fB dis])
  then show ?case using Cons.IH cA cB by simp
qed

lemma solvable_ex_reach: "replay GOAL [8, 7] = Inr (Some [1, 2, 3, 4, 5, 6, 0, 7, 8])"
  by (simp add: GOAL_def apply_move_by_tile_value_def neighbors_def swap_tiles_def)

section \<open>The solvability criterion\<close>

text \<open>
  C3: on a Board, \<open>is_solvable_3x3\<close> holds exactly when the number of inversions is even,
  where \<open>inversions\<close> returns the number of pairs of positions \<open>i < j\<close> of the state
  without its blank whose values are in descending order, and it holds exactly when the
  Board is reachable from GOAL by a replayed move list.
\<close>

theorem solvable_iff_reachable:
  assumes "is_board b"
  shows "inversions b = int (card (inversion_pairs (filter (\<lambda>x. x \<noteq> 0) b)))
       \<and> (is_solvable_3x3 b \<longleftrightarrow> even (card (inversion_pairs (filter (\<lambda>x. x \<noteq> 0) b))))
       \<and> (is_solvable_3x3 b \<longleftrightarrow> reachable GOAL b)"
proof (intro conjI)
  show inv: "inversions b = int (card (inversion_pairs (filter (\<lambda>x. x \<noteq> 0) b)))"
    by (simp add: inversions_eq inv_count_card)
  show "is_solvable_3x3 b \<longleftrightarrow> even (card (inversion_pairs (filter (\<lambda>x. x \<noteq> 0) b)))"
    unfolding is_solvable_3x3_def inv by presburger
  show "is_solvable_3x3 b \<longleftrightarrow> reachable GOAL b"
  proof
    assume "is_solvable_3x3 b"
    then have "reachable b GOAL" by (rule solve_exists [OF assms])
    then show "reachable GOAL b" by (rule reachable_sym [OF assms])
  next
    assume "reachable GOAL b"
    then show "is_solvable_3x3 b"
      using reachable_board [OF is_board_GOAL] solvable_GOAL by simp
  qed
qed

text \<open>The solvable Board [1,2,3,4,5,6,0,7,8] is reached from GOAL by the moves 8, 7.\<close>

theorem solvable_iff_reachable_witness:
  "is_board [1, 2, 3, 4, 5, 6, 0, 7, 8] \<and> is_solvable_3x3 [1, 2, 3, 4, 5, 6, 0, 7, 8]
   \<and> replay GOAL [8, 7] = Inr (Some [1, 2, 3, 4, 5, 6, 0, 7, 8])
   \<and> reachable GOAL [1, 2, 3, 4, 5, 6, 0, 7, 8]
   \<and> even (card (inversion_pairs (filter (\<lambda>x. x \<noteq> 0) [1, 2, 3, 4, 5, 6, 0, 7, 8])))"
  using solvable_iff_reachable [OF board_ex1] board_ex1 solvable_ex1 solvable_ex_reach
  by simp

section \<open>The search on a board that cannot be solved\<close>

lemma py_index_board:
  assumes "is_board b"
  shows "\<exists>z. py_index b 0 = Some z \<and> z < 9"
proof -
  have "(0::int) \<in> set b" using assms by (simp add: is_board_def)
  then obtain z where z: "py_index b 0 = Some z"
    using py_index_None [of b 0] by (cases "py_index b 0") auto
  then have "z < length b" using py_index_Some by fastforce
  then show ?thesis using z assms by (simp add: is_board_def)
qed

lemma relax_odd:
  assumes b: "is_board state" and z: "py_index state 0 = Some z" and nb: "nb \<in> set (neighbors z)"
    and P: "\<forall>e \<in> set (open_heap st). is_board (snd (snd e)) \<and> is_solvable_3x3 (snd (snd e)) = v"
    and v: "is_solvable_3x3 state = v"
  shows "\<exists>st'. relax state g z st nb = Inr st' \<and>
           (\<forall>e \<in> set (open_heap st'). is_board (snd (snd e)) \<and> is_solvable_3x3 (snd (snd e)) = v)"
proof -
  have z9: "z < 9" using py_index_Some [OF z] b by (simp add: is_board_def)
  have nb9: "nb < length state" using neighbors_bound [OF z9 nb] b by (simp add: is_board_def)
  have sb: "is_board (swap_tiles state z nb)" by (rule swap_board [OF b z nb])
  have sv: "is_solvable_3x3 (swap_tiles state z nb) = v"
    using swap_solvable [OF b z nb] v by simp
  show ?thesis
    using nb9 P sv sb
    by (simp add: relax_def Let_def manhattan_val [OF sb] heappush_def)
qed

lemma expand_odd:
  assumes b: "is_board state" and z: "py_index state 0 = Some z"
    and v: "is_solvable_3x3 state = v"
  shows "set nbs \<subseteq> set (neighbors z) \<Longrightarrow>
     \<forall>e \<in> set (open_heap st). is_board (snd (snd e)) \<and> is_solvable_3x3 (snd (snd e)) = v \<Longrightarrow>
     \<exists>st'. expand state g z nbs st = Inr st' \<and>
       (\<forall>e \<in> set (open_heap st'). is_board (snd (snd e)) \<and> is_solvable_3x3 (snd (snd e)) = v)"
proof (induction nbs arbitrary: st)
  case Nil
  then show ?case by simp
next
  case (Cons nb nbs)
  from Cons.prems have nb: "nb \<in> set (neighbors z)" and rest: "set nbs \<subseteq> set (neighbors z)" by auto
  from relax_odd [OF b z nb Cons.prems(2) v, of g] obtain st1 where
    r: "relax state g z st nb = Inr st1" and
    P1: "\<forall>e \<in> set (open_heap st1). is_board (snd (snd e)) \<and> is_solvable_3x3 (snd (snd e)) = v"
    by blast
  from Cons.IH [OF rest P1] show ?case by (simp add: r)
qed

lemma astar_loop_odd:
  "\<forall>e \<in> set (open_heap st). is_board (snd (snd e)) \<and> is_solvable_3x3 (snd (snd e)) = False \<Longrightarrow>
   astar_loop m st n = Some (Inr None)"
proof (induction m st n rule: astar_loop.induct)
  case (1 m st n)
  show ?case
  proof (cases "open_heap st = []")
    case True
    then show ?thesis by (subst astar_loop.simps) simp
  next
    case ne: False
    define e where "e = fst (heappop (open_heap st))"
    define st1 where "st1 = st\<lparr>open_heap := snd (heappop (open_heap st))\<rparr>"
    define g where "g = fst (snd e)"
    define state where "state = snd (snd e)"
    have em: "e \<in> set (open_heap st)"
      using ne by (simp add: e_def heappop_def min_list_Min)
    have P1: "\<forall>e \<in> set (open_heap st1). is_board (snd (snd e)) \<and> is_solvable_3x3 (snd (snd e)) = False"
      using "1.prems" notin_set_remove1 [of _ "open_heap st"]
      by (auto simp: st1_def heappop_def)
    have sb: "is_board state" and sv: "is_solvable_3x3 state = False"
      using "1.prems" em by (auto simp: state_def)
    have ng: "state \<noteq> GOAL" using sv solvable_GOAL by auto
    show ?thesis
    proof (cases "g \<noteq> g_cost_get (g_cost st1) state")
      case True
      have "astar_loop m st n = astar_loop m st1 n"
        using ne True
        by (subst astar_loop.simps) (simp add: Let_def e_def [symmetric] st1_def [symmetric]
            g_def [symmetric] state_def [symmetric])
      also have "\<dots> = Some (Inr None)"
        using "1.IH"(1) [OF ne e_def st1_def g_def state_def True P1] .
      finally show ?thesis .
    next
      case live: False
      show ?thesis
      proof (cases "n + 1 > m")
        case True
        show ?thesis
          using ne live ng True
          by (subst astar_loop.simps) (simp add: Let_def e_def [symmetric] st1_def [symmetric]
              g_def [symmetric] state_def [symmetric])
      next
        case budget: False
        obtain z where z: "py_index state 0 = Some z" using py_index_board [OF sb] by blast
        obtain st2 where x: "expand state g z (neighbors z) st1 = Inr st2" and
          P2: "\<forall>e \<in> set (open_heap st2). is_board (snd (snd e)) \<and> is_solvable_3x3 (snd (snd e)) = False"
          using expand_odd [OF sb z sv subset_refl P1, of g] by blast
        have "astar_loop m st n = astar_loop m st2 (n + 1)"
          using ne live ng budget z x
          by (subst astar_loop.simps) (simp add: Let_def e_def [symmetric] st1_def [symmetric]
              g_def [symmetric] state_def [symmetric])
        also have "\<dots> = Some (Inr None)"
          using "1.IH"(2) [OF ne e_def st1_def g_def state_def _ ng budget z x P2] live by simp
        finally show ?thesis .
      qed
    qed
  qed
qed


lemma board_ex2: "is_board [1, 2, 3, 4, 5, 6, 8, 7, 0]"
  by (simp add: is_board_mset)

lemma unsolvable_ex2: "\<not> is_solvable_3x3 [1, 2, 3, 4, 5, 6, 8, 7, 0]"
  by (simp add: is_solvable_3x3_def inversions_eq)

text \<open>
  Claim C9. On a start board with an odd number of inversions \<^const>\<open>astar_solve\<close> returns
  \<^verbatim>\<open>None\<close>, whatever the budget: the search ends, it raises nothing, and it returns no move
  list.
\<close>

theorem unsolvable_returns_none:
  assumes "is_board start" and "\<not> is_solvable_3x3 start"
  shows "astar_solve start max_expansions = Some (Inr None)"
proof -
  have ng: "start \<noteq> GOAL" using assms(2) solvable_GOAL by auto
  have "astar_loop max_expansions
          \<lparr>open_heap = [(manhattan_val start, 0, start)], g_cost = [start \<mapsto> 0],
             parent = Map.empty\<rparr> 0 = Some (Inr None)"
    by (rule astar_loop_odd) (simp add: assms)
  then show ?thesis
    using ng by (simp add: astar_solve_def manhattan_val [OF assms(1)] heappush_def
        del: astar_loop.simps)
qed

theorem unsolvable_returns_none_witness:
  "is_board [1, 2, 3, 4, 5, 6, 8, 7, 0] \<and> \<not> is_solvable_3x3 [1, 2, 3, 4, 5, 6, 8, 7, 0] \<and>
   astar_solve [1, 2, 3, 4, 5, 6, 8, 7, 0] 250000 = Some (Inr None)"
  using unsolvable_returns_none [OF board_ex2 unsolvable_ex2, of 250000] board_ex2 unsolvable_ex2
  by simp

section \<open>The parent links\<close>

lemma tree_inv_init:
  "is_board start \<Longrightarrow>
   tree_inv start \<lparr>open_heap = [(h, 0, start)], g_cost = [start \<mapsto> 0], parent = Map.empty\<rparr>"
  by (simp add: tree_inv_def)

lemma tree_inv_pop:
  assumes "tree_inv start st"
  shows "tree_inv start (st\<lparr>open_heap := snd (heappop (open_heap st))\<rparr>)"
proof -
  have "set (remove1 (min_list (open_heap st)) (open_heap st)) \<subseteq> set (open_heap st)"
    by (rule set_remove1_subset)
  then show ?thesis using assms unfolding tree_inv_def heappop_def by auto
qed

lemma relax_tree:
  assumes T: "tree_inv start st" and g: "g_cost st state = Some g"
    and z: "py_index state 0 = Some z" and nb: "nb \<in> set (neighbors z)"
  shows "\<exists>st'. relax state g z st nb = Inr st' \<and> tree_inv start st' \<and> g_cost st' state = Some g"
proof -
  have b: "is_board state" and g0: "0 \<le> g" using T g unfolding tree_inv_def by blast+
  have z9: "z < 9" using py_index_Some [OF z] b by (simp add: is_board_def)
  have nb9: "\<not> length state \<le> nb" using neighbors_bound [OF z9 nb] b by (simp add: is_board_def)
  define t where "t = swap_tiles state z nb"
  have tb: "is_board t" unfolding t_def by (rule swap_board [OF b z nb])
  have mv: "apply_move_by_tile_value state (state ! nb) = Inr (Some t)"
    unfolding t_def by (rule swap_move [OF b z nb])
  show ?thesis
  proof (cases "g + 1 < g_cost_get (g_cost st) t")
    case False
    then have "relax state g z st nb = Inr st"
      using nb9 by (simp add: relax_def Let_def t_def)
    then show ?thesis using T g by simp
  next
    case True
    define st' where "st' = st\<lparr>g_cost := (g_cost st)(t \<mapsto> g + 1),
        parent := (parent st)(t \<mapsto> (state, state ! nb)),
        open_heap := heappush (open_heap st) (g + 1 + manhattan_val t, g + 1, t)\<rparr>"
    have r: "relax state g z st nb = Inr st'"
      using nb9 True by (simp add: relax_def Let_def t_def [symmetric] manhattan_val [OF tb] st'_def)
    have ts: "t \<noteq> state" using True g by (auto simp: g_cost_get_def)
    have tst: "t \<noteq> start"
      using True T g0 unfolding tree_inv_def by (auto simp: g_cost_get_def)
    have lower: "\<And>gt. g_cost st t = Some gt \<Longrightarrow> g + 1 < gt"
      using True by (simp add: g_cost_get_def)
    have 1: "g_cost st' start = Some 0 \<and> parent st' start = None"
      using T tst unfolding tree_inv_def by (simp add: st'_def)
    have 2: "is_board p \<and> apply_move_by_tile_value p tile = Inr (Some s) \<and>
        (\<exists>gp gs. g_cost st' p = Some gp \<and> g_cost st' s = Some gs \<and> gp + 1 \<le> gs)"
      if ps: "parent st' s = Some (p, tile)" for s p tile
    proof (cases "s = t")
      case True
      then have "p = state" "tile = state ! nb" using ps by (auto simp: st'_def)
      then show ?thesis using True b mv g ts by (simp add: st'_def)
    next
      case False
      then have old: "parent st s = Some (p, tile)" using ps by (simp add: st'_def)
      then obtain gp gs where o: "is_board p" "apply_move_by_tile_value p tile = Inr (Some s)"
        "g_cost st p = Some gp" "g_cost st s = Some gs" "gp + 1 \<le> gs"
        using T unfolding tree_inv_def by blast
      show ?thesis
      proof (cases "p = t")
        case True
        then have "g + 1 < gp" using lower o(3) by simp
        then show ?thesis using o True False by (simp add: st'_def)
      next
        case pt: False
        then show ?thesis using o False by (simp add: st'_def)
      qed
    qed
    have 3: "0 \<le> g' \<and> is_board s \<and> (s \<noteq> start \<longrightarrow> parent st' s \<noteq> None)"
      if "g_cost st' s = Some g'" for s g'
    proof (cases "s = t")
      case True
      then show ?thesis using that tb g0 by (simp add: st'_def)
    next
      case False
      then have "g_cost st s = Some g'" using that by (simp add: st'_def)
      then show ?thesis using T False unfolding tree_inv_def by (simp add: st'_def)
    qed
    have 4: "\<forall>e \<in> set (open_heap st'). g_cost st' (snd (snd e)) \<noteq> None"
      using T unfolding tree_inv_def by (simp add: st'_def heappush_def)
    have "tree_inv start st'"
      unfolding tree_inv_def using 1 2 3 4 by blast
    moreover have "g_cost st' state = Some g" using g ts by (simp add: st'_def)
    ultimately show ?thesis using r by simp
  qed
qed

lemma expand_tree:
  assumes z: "py_index state 0 = Some z"
  shows "set nbs \<subseteq> set (neighbors z) \<Longrightarrow> tree_inv start st \<Longrightarrow> g_cost st state = Some g \<Longrightarrow>
     \<exists>st'. expand state g z nbs st = Inr st' \<and> tree_inv start st' \<and> g_cost st' state = Some g"
proof (induction nbs arbitrary: st)
  case Nil
  then show ?case by simp
next
  case (Cons nb nbs)
  from Cons.prems have nb: "nb \<in> set (neighbors z)" and rest: "set nbs \<subseteq> set (neighbors z)" by auto
  from relax_tree [OF Cons.prems(2) Cons.prems(3) z nb] obtain st1 where
    r: "relax state g z st nb = Inr st1" and T1: "tree_inv start st1" and g1: "g_cost st1 state = Some g"
    by blast
  from Cons.IH [OF rest T1 g1] show ?case by (simp add: r)
qed

lemma reconstruct_tree:
  assumes T: "tree_inv start st"
  shows "g_cost st s = Some g \<Longrightarrow>
    \<exists>ms. replay start ms = Inr (Some s) \<and> int (length ms) \<le> g \<and>
          (\<forall>acc. reconstruct (parent st) s acc = Some (ms @ rev acc))"
proof (induction "nat g" arbitrary: s g rule: less_induct)
  case less
  show ?case
  proof (cases "parent st s")
    case None
    then have "s = start" using T less.prems unfolding tree_inv_def by blast
    moreover have "0 \<le> g" using T less.prems unfolding tree_inv_def by blast
    ultimately show ?thesis
      using None by (intro exI [of _ "[]"]) (simp add: reconstruct.simps)
  next
    case (Some pt)
    obtain p tile where pt: "pt = (p, tile)" by (cases pt)
    from T Some pt obtain gp gs where o: "is_board p" "apply_move_by_tile_value p tile = Inr (Some s)"
      "g_cost st p = Some gp" "g_cost st s = Some gs" "gp + 1 \<le> gs"
      unfolding tree_inv_def by blast
    have gs: "gs = g" using o(4) less.prems by simp
    have gp0: "0 \<le> gp" using T o(3) unfolding tree_inv_def by blast
    have "nat gp < nat g" using o(5) gs gp0 by simp
    from less.hyps [OF this o(3)] obtain ms where
      ms: "replay start ms = Inr (Some p)" "int (length ms) \<le> gp"
      "\<forall>acc. reconstruct (parent st) p acc = Some (ms @ rev acc)" by blast
    have "replay start (ms @ [tile]) = Inr (Some s)"
      using ms(1) o(2) by (simp add: replay_append)
    moreover have "int (length (ms @ [tile])) \<le> g" using ms(2) o(5) gs by simp
    moreover have "\<forall>acc. reconstruct (parent st) s acc = Some ((ms @ [tile]) @ rev acc)"
      using ms(3) Some pt by (subst reconstruct.simps) simp
    ultimately show ?thesis by blast
  qed
qed

lemma astar_loop_tree:
  "tree_inv start st \<Longrightarrow> astar_loop m st n = Some (Inr (Some ms)) \<Longrightarrow>
   replay start ms = Inr (Some GOAL)"
proof (induction m st n rule: astar_loop.induct)
  case (1 m st n)
  have ne: "open_heap st \<noteq> []"
    using "1.prems"(2) by (subst (asm) astar_loop.simps) (auto split: if_splits)
  define e where "e = fst (heappop (open_heap st))"
  define st1 where "st1 = st\<lparr>open_heap := snd (heappop (open_heap st))\<rparr>"
  define g where "g = fst (snd e)"
  define state where "state = snd (snd e)"
  have em: "e \<in> set (open_heap st)"
    using ne by (simp add: e_def heappop_def min_list_Min)
  have T1: "tree_inv start st1" unfolding st1_def by (rule tree_inv_pop [OF "1.prems"(1)])
  have gc1: "g_cost st1 = g_cost st" by (simp add: st1_def)
  obtain g' where g': "g_cost st state = Some g'"
    using "1.prems"(1) em unfolding tree_inv_def state_def by blast
  show ?case
  proof (cases "g \<noteq> g_cost_get (g_cost st1) state")
    case True
    have "astar_loop m st n = astar_loop m st1 n"
      using ne True
      by (subst astar_loop.simps) (simp add: Let_def e_def [symmetric] st1_def [symmetric]
          g_def [symmetric] state_def [symmetric])
    then show ?thesis
      using "1.IH"(1) [OF ne e_def st1_def g_def state_def True T1] "1.prems"(2) by simp
  next
    case live: False
    then have gg: "g_cost st1 state = Some g" using g' gc1 by (simp add: g_cost_get_def)
    show ?thesis
    proof (cases "state = GOAL")
      case True
      have "astar_loop m st n = map_option (\<lambda>moves. Inr (Some moves)) (reconstruct (parent st1) GOAL [])"
        using ne live True
        by (subst astar_loop.simps) (simp add: Let_def e_def [symmetric] st1_def [symmetric]
            g_def [symmetric] state_def [symmetric])
      moreover obtain ms' where "replay start ms' = Inr (Some GOAL)"
        "reconstruct (parent st1) GOAL [] = Some ms'"
        using reconstruct_tree [OF T1 gg] True by fastforce
      ultimately show ?thesis using "1.prems"(2) by simp
    next
      case ng: False
      show ?thesis
      proof (cases "n + 1 > m")
        case True
        have "astar_loop m st n = Some (Inr None)"
          using ne live ng True
          by (subst astar_loop.simps) (simp add: Let_def e_def [symmetric] st1_def [symmetric]
              g_def [symmetric] state_def [symmetric])
        then show ?thesis using "1.prems"(2) by simp
      next
        case budget: False
        have sb: "is_board state" using T1 gg unfolding tree_inv_def by blast
        obtain z where z: "py_index state 0 = Some z" using py_index_board [OF sb] by blast
        obtain st2 where x: "expand state g z (neighbors z) st1 = Inr st2" and
          T2: "tree_inv start st2"
          using expand_tree [OF z subset_refl T1 gg] by blast
        have "astar_loop m st n = astar_loop m st2 (n + 1)"
          using ne live ng budget z x
          by (subst astar_loop.simps) (simp add: Let_def e_def [symmetric] st1_def [symmetric]
              g_def [symmetric] state_def [symmetric])
        then show ?thesis
          using "1.IH"(2) [OF ne e_def st1_def g_def state_def _ ng budget z x T2] live "1.prems"(2)
          by simp
      qed
    qed
  qed
qed


lemma astar_ex1: "astar_solve [1, 2, 3, 4, 5, 6, 0, 7, 8] 250000 = Some (Inr (Some [7, 8]))"
  apply code_simp
  apply (subst reconstruct.simps, simp)+
  done


text \<open>
  Claim C2. A move list that \<^const>\<open>astar_solve\<close> returns for a start board replays from that
  board without a refused move and without an exception, and the replay ends in
  \<^const>\<open>GOAL\<close>. This holds for every budget, and for the empty list as well, which is returned
  for \<^const>\<open>GOAL\<close> itself.
\<close>

theorem solve_replays_to_goal:
  assumes "is_board start" and "astar_solve start max_expansions = Some (Inr (Some ms))"
  shows "replay start ms = Inr (Some GOAL)"
proof (cases "start = GOAL")
  case True
  then show ?thesis using assms(2) by (simp add: astar_solve_def)
next
  case False
  have "astar_loop max_expansions
          \<lparr>open_heap = [(manhattan_val start, 0, start)], g_cost = [start \<mapsto> 0],
             parent = Map.empty\<rparr> 0 = Some (Inr (Some ms))"
    using assms(2) False
    by (simp add: astar_solve_def manhattan_val [OF assms(1)] heappush_def del: astar_loop.simps)
  then show ?thesis
    using astar_loop_tree [OF tree_inv_init [OF assms(1)]] by blast
qed

theorem solve_replays_to_goal_witness:
  "is_board [1, 2, 3, 4, 5, 6, 0, 7, 8] \<and>
   astar_solve [1, 2, 3, 4, 5, 6, 0, 7, 8] 250000 = Some (Inr (Some [7, 8])) \<and>
   replay [1, 2, 3, 4, 5, 6, 0, 7, 8] [7, 8] = Inr (Some GOAL)"
  using solve_replays_to_goal [OF board_ex1 astar_ex1] board_ex1 astar_ex1 by simp

section \<open>The number of solvable boards\<close>

lemma exchange12_twice [simp]: "exchange12 (exchange12 v) = v"
  by (simp add: exchange12_def)

lemma map_exchange12_twice: "map exchange12 (map exchange12 b) = b"
  by (simp add: comp_def)

lemma filter_extra:
  "distinct r \<Longrightarrow> \<not> P a \<Longrightarrow>
   length (filter (\<lambda>y. P y \<or> y = a) r) = length (filter P r) + (if a \<in> set r then 1 else 0)"
  by (induction r) auto

lemma inv_count_exchange12:
  "distinct xs \<Longrightarrow>
   inv_count (map exchange12 xs) - inv_count xs \<in>
     (if 1 \<in> set xs \<and> 2 \<in> set xs then {1, - 1} else {0})"
proof (induction xs)
  case Nil
  then show ?case by simp
next
  case (Cons x r)
  have d: "distinct r" and xr: "x \<notin> set r" using Cons.prems by simp_all
  have len: "length (filter (\<lambda>y. exchange12 x > y) (map exchange12 r))
      = length (filter (\<lambda>y. exchange12 x > exchange12 y) r)"
    by (simp add: filter_map comp_def)
  consider "x = 1" | "x = 2" | "x \<noteq> 1" "x \<noteq> 2" by blast
  then show ?case
  proof cases
    case 1
    have eq: "filter (\<lambda>y. exchange12 x > exchange12 y) r = filter (\<lambda>y. 1 > y \<or> y = 2) r"
      using xr 1 by (intro filter_cong) (auto simp: exchange12_def)
    have "length (filter (\<lambda>y. (1::int) > y \<or> y = 2) r)
        = length (filter (\<lambda>y. 1 > y) r) + (if 2 \<in> set r then 1 else 0)"
      by (rule filter_extra [OF d]) simp
    moreover have "inv_count (map exchange12 r) - inv_count r = 0"
      using Cons.IH [OF d] xr 1 by simp
    ultimately show ?thesis using 1 len eq by simp
  next
    case 2
    have eq: "filter (\<lambda>y. 2 > y) r = filter (\<lambda>y. exchange12 x > exchange12 y \<or> y = 1) r"
      using xr 2 by (intro filter_cong) (auto simp: exchange12_def)
    have "length (filter (\<lambda>y. exchange12 x > exchange12 y \<or> y = 1) r)
        = length (filter (\<lambda>y. exchange12 x > exchange12 y) r) + (if 1 \<in> set r then 1 else 0)"
      by (rule filter_extra [OF d]) (simp add: exchange12_def 2)
    moreover have "inv_count (map exchange12 r) - inv_count r = 0"
      using Cons.IH [OF d] xr 2 by simp
    ultimately show ?thesis using 2 len eq by simp
  next
    case 3
    have eq: "filter (\<lambda>y. exchange12 x > exchange12 y) r = filter (\<lambda>y. x > y) r"
      using 3 by (intro filter_cong) (auto simp: exchange12_def)
    show ?thesis using Cons.IH [OF d] 3 len eq by simp
  qed
qed

lemma exchange12_board:
  assumes "is_board b"
  shows "is_board (map exchange12 b)"
proof -
  have "inj exchange12" by (rule inj_on_inverseI [of _ exchange12]) simp
  then have "distinct (map exchange12 b)"
    using assms by (simp add: is_board_def distinct_map inj_on_def)
  moreover have sub: "exchange12 ` {0..8} \<subseteq> {0..8}" by (auto simp: exchange12_def)
  have "exchange12 ` {0..8} = {0..8}"
  proof
    show "exchange12 ` {0..8} \<subseteq> {0..8}" by (rule sub)
    show "{0..8} \<subseteq> exchange12 ` {0..8}"
    proof
      fix v :: int assume "v \<in> {0..8}"
      then have "exchange12 v \<in> {0..8}" using sub by blast
      then have "exchange12 (exchange12 v) \<in> exchange12 ` {0..8}" by (rule imageI)
      then show "v \<in> exchange12 ` {0..8}" by simp
    qed
  qed
  ultimately show ?thesis using assms by (simp add: is_board_def)
qed

lemma exchange12_solvable:
  assumes "is_board b"
  shows "is_solvable_3x3 (map exchange12 b) \<longleftrightarrow> \<not> is_solvable_3x3 b"
proof -
  define xs where "xs = filter (\<lambda>x. x \<noteq> 0) b"
  have f: "filter (\<lambda>x. x \<noteq> 0) (map exchange12 b) = map exchange12 xs"
    unfolding xs_def filter_map comp_def
    by (rule arg_cong [where f = "map exchange12"], rule filter_cong) (auto simp: exchange12_def)
  have "distinct xs" "1 \<in> set xs" "2 \<in> set xs"
    using assms by (simp_all add: xs_def is_board_def)
  then have "inv_count (map exchange12 xs) - inv_count xs \<in> {1, - 1}"
    using inv_count_exchange12 [of xs] by simp
  then have "inv_count (map exchange12 xs) = inv_count xs + 1 \<or>
      inv_count (map exchange12 xs) = inv_count xs - 1"
    by auto
  then have "(inv_count (map exchange12 xs) mod 2 = 0) = (inv_count xs mod 2 \<noteq> 0)"
    by presburger
  moreover have "inversions (map exchange12 b) = inv_count (map exchange12 xs)"
    by (simp add: inversions_eq f)
  moreover have "inversions b = inv_count xs"
    by (simp add: inversions_eq xs_def)
  ultimately show ?thesis
    unfolding is_solvable_3x3_def by simp
qed

lemma boards_eq: "{b. is_board b} = {xs. length xs = 9 \<and> distinct xs \<and> set xs \<subseteq> {0..8 :: int}}"
proof -
  have "set xs = {0..8}" if "length xs = 9" "distinct xs" "set xs \<subseteq> {0..8}" for xs :: "int list"
  proof (rule card_subset_eq)
    show "finite {0..8 :: int}" by simp
    show "set xs \<subseteq> {0..8}" by (rule that)
    show "card (set xs) = card {0..8 :: int}" using that by (simp add: distinct_card)
  qed
  then show ?thesis by (auto simp: is_board_def)
qed

lemma finite_boards: "finite {b. is_board b}"
proof -
  have "finite {xs. set xs \<subseteq> {0..8 :: int} \<and> length xs = 9}"
    by (rule finite_lists_length_eq) simp
  moreover have "{b. is_board b} \<subseteq> {xs. set xs \<subseteq> {0..8 :: int} \<and> length xs = 9}"
    unfolding boards_eq by auto
  ultimately show ?thesis by (rule rev_finite_subset)
qed

lemma card_boards: "card {b. is_board b} = 362880"
proof -
  have "card {xs. length xs = 9 \<and> distinct xs \<and> set xs \<subseteq> {0..8 :: int}} = \<Prod>{card {0..8 :: int} - 9 + 1 .. card {0..8 :: int}}"
    by (rule card_lists_distinct_length_eq) simp_all
  also have "\<dots> = \<Prod>{1..9 :: nat}" by simp
  also have "\<dots> = fact 9" by (simp add: fact_prod)
  also have "\<dots> = (362880 :: nat)" by (simp add: fact_numeral)
  finally show ?thesis by (simp add: boards_eq)
qed

lemma card_solvable: "card {b. is_board b \<and> is_solvable_3x3 b} \<le> 181440"
proof -
  let ?U = "{b. is_board b \<and> is_solvable_3x3 b}"
  let ?V = "{b. is_board b \<and> \<not> is_solvable_3x3 b}"
  have fU: "finite ?U" and fV: "finite ?V" using finite_boards by simp_all
  have "inj_on (map exchange12) ?U"
    by (rule inj_on_inverseI [of _ "map exchange12"]) (rule map_exchange12_twice)
  moreover have "map exchange12 ` ?U \<subseteq> ?V"
    by (auto simp: exchange12_board exchange12_solvable)
  ultimately have le: "card ?U \<le> card ?V" using fV by (rule card_inj_on_le)
  have "?U \<union> ?V = {b. is_board b}" "?U \<inter> ?V = {}" by auto
  then have "card ?U + card ?V = 362880"
    using card_Un_disjoint [OF fU fV] card_boards by simp
  then show ?thesis using le by simp
qed

section \<open>Reading a state\<close>

lemma sort_range_board: "sort vals = map int [0 ..< 9] \<longleftrightarrow> is_board vals"
proof -
  have r: "map int [0 ..< 9] = [0, 1, 2, 3, 4, 5, 6, 7, 8]" by (simp add: upt_rec)
  show ?thesis
  proof
    assume "sort vals = map int [0 ..< 9]"
    then have "mset (sort vals) = mset [0, 1, 2, 3, 4, 5, 6, 7, 8 :: int]" using r by simp
    then show "is_board vals" by (simp add: is_board_mset)
  next
    assume "is_board vals"
    then have "mset [0, 1, 2, 3, 4, 5, 6, 7, 8 :: int] = mset vals" by (simp add: is_board_mset)
    moreover have "sorted [0, 1, 2, 3, 4, 5, 6, 7, 8 :: int]" by simp
    ultimately have "sort vals = [0, 1, 2, 3, 4, 5, 6, 7, 8]" by (rule properties_for_sort)
    then show "sort vals = map int [0 ..< 9]" using r by simp
  qed
qed

lemma check_vals_board: "check_vals vals = (if is_board vals then Inr (Some vals) else Inr None)"
  by (simp add: check_vals_def sort_range_board)

text \<open>No white space, sign, underscore, comma or semicolon is a digit.\<close>

lemma whitespace_no_digit: "list_all (\<lambda>c. \<not> py_isdigit c) whitespace_points"
  by (simp add: whitespace_points_def py_isdigit_def is_decimal_def to_decimal_def
      decimal_zeros_def other_digits_def)

lemma marks_no_digit: "list_all (\<lambda>c. \<not> py_isdigit c) [43, 44, 45, 59, 95]"
  by (simp add: py_isdigit_def is_decimal_def to_decimal_def decimal_zeros_def other_digits_def)

lemma isspace_no_digit: "py_isspace c \<Longrightarrow> \<not> py_isdigit c"
  using whitespace_no_digit by (simp add: py_isspace_def list_all_iff)

lemma decimal_isdigit: "is_decimal c \<Longrightarrow> py_isdigit c"
  by (simp add: py_isdigit_def)

lemma isdigit_no_separator: "py_isdigit c \<Longrightarrow> \<not> is_separator c"
  using isspace_no_digit [of c] marks_no_digit by (auto simp: is_separator_def)

lemma py_int_single: "py_int [c] = map_option int (to_decimal c)"
proof (cases "is_decimal c")
  case True
  then have d: "py_isdigit c" by (rule decimal_isdigit)
  then have "\<not> int_isspace c" "c \<noteq> 43" "c \<noteq> 45" "c \<noteq> 95"
    using isspace_no_digit [of c] marks_no_digit by (auto simp: int_isspace_def)
  moreover obtain d where "to_decimal c = Some d" using True by (auto simp: is_decimal_def)
  ultimately show ?thesis
    using True by (simp add: py_int_def Let_def decimal_value_def)
next
  case False
  define t where "t = rev (dropWhile int_isspace (rev (dropWhile int_isspace [c])))"
  have t: "t = (if int_isspace c then [] else [c])" by (simp add: t_def)
  have "\<not> int_body False (if t \<noteq> [] \<and> (hd t = 45 \<or> hd t = 43) then tl t else t)"
    using False by (simp add: t)
  then have "py_int [c] = None"
    unfolding py_int_def t_def [symmetric] Let_def by simp
  moreover have "to_decimal c = None" using False by (simp add: is_decimal_def)
  ultimately show ?thesis by simp
qed


lemma those_single: "those (map (\<lambda>ch. py_int [ch]) t) = digit_values t"
  by (simp add: py_int_single digit_values_def)

lemma digit_values_None: "digit_values t = None \<longleftrightarrow> \<not> list_all is_decimal t"
  unfolding digit_values_def
  by (induction t) (auto simp: is_decimal_def split: option.splits)

lemma split_replace:
  "split_on py_isspace cur (py_replace 59 (py_replace 44 t)) = split_on is_separator cur t"
proof (induction t arbitrary: cur)
  case Nil
  then show ?case by (simp add: py_replace_def)
next
  case (Cons c t)
  have sp: "py_isspace 32" "\<not> py_isspace 44" "\<not> py_isspace 59"
    by (simp_all add: py_isspace_def whitespace_points_def)
  from Cons [unfolded py_replace_def] sp show ?case
    by (auto simp: py_replace_def is_separator_def)
qed

lemma split_nonempty: "[] \<notin> set (split_on sep cur t)"
  by (induction t arbitrary: cur) auto

lemma split_no_separator:
  "list_all (\<lambda>c. \<not> sep c) t \<Longrightarrow> cur @ t \<noteq> [] \<Longrightarrow> split_on sep cur t = [cur @ t]"
  by (induction t arbitrary: cur) auto

lemma digits_single_token:
  assumes "list_all py_isdigit t" "length t = 9"
  shows "split_on is_separator [] t = [t]"
proof -
  have "list_all (\<lambda>c. \<not> is_separator c) t"
    using assms(1) by (simp add: list_all_iff isdigit_no_separator)
  moreover have "[] @ t \<noteq> []" using assms(2) by auto
  ultimately show ?thesis using split_no_separator [of is_separator t "[]"] by simp
qed

lemma parse_state_tokens:
  assumes "\<not> (list_all py_isdigit t \<and> length t = 9)" and t: "t = py_strip text"
  shows "parse_state text =
           (if length (split_on is_separator [] t) \<noteq> 9 then Inr None
            else case those (map py_int (split_on is_separator [] t)) of
                   None \<Rightarrow> Inr None
                 | Some vals \<Rightarrow> if is_board vals then Inr (Some vals) else Inr None)"
proof -
  have f: "filter (\<lambda>p. p \<noteq> []) (split_on is_separator [] t) = split_on is_separator [] t"
    using split_nonempty [of is_separator "[]" t] by (simp add: filter_id_conv) metis
  show ?thesis
  proof (cases "t = []")
    case True
    then show ?thesis using t by (simp add: parse_state_def)
  next
    case False
    then show ?thesis
      using assms(1)
      unfolding t
      by (auto simp: parse_state_def Let_def py_split_def split_replace f [unfolded t]
          check_vals_board split: option.splits)
  qed
qed

lemma parse_state_digits:
  assumes "list_all py_isdigit t" "length t = 9" and t: "t = py_strip text"
  shows "parse_state text =
           (case digit_values t of
              None \<Rightarrow> Inl ValueError
            | Some vals \<Rightarrow> if is_board vals then Inr (Some vals) else Inr None)"
proof -
  have "t \<noteq> []" using assms(2) by auto
  then show ?thesis
    using assms by (simp add: parse_state_def Let_def those_single check_vals_board
        cong: option.case_cong)
qed


subsection \<open>Example texts\<close>

lemma strip_ex1: "py_strip (code_points '' 123456780'') = code_points ''123456780''"
  by (simp add: py_strip_def py_isspace_def whitespace_points_def code_points_def)

lemma strip_ex2:
  "py_strip (code_points ''8,6,7;2 5 4 3 0 1'') = code_points ''8,6,7;2 5 4 3 0 1''"
  by (simp add: py_strip_def py_isspace_def whitespace_points_def code_points_def)

lemma split_ex2:
  "split_on is_separator [] (code_points ''8,6,7;2 5 4 3 0 1'') =
     [[56], [54], [55], [50], [53], [52], [51], [48], [49]]"
  by (simp add: is_separator_def py_isspace_def whitespace_points_def code_points_def)

lemma ascii_decimal:
  "to_decimal 48 = Some 0" "to_decimal 49 = Some 1" "to_decimal 50 = Some 2"
  "to_decimal 51 = Some 3" "to_decimal 52 = Some 4" "to_decimal 53 = Some 5"
  "to_decimal 54 = Some 6" "to_decimal 55 = Some 7" "to_decimal 56 = Some 8"
  by (simp_all add: to_decimal_def decimal_zeros_def)

lemma digits_ex1: "digit_values (code_points ''123456780'') = Some GOAL"
  by (simp add: digit_values_def code_points_def ascii_decimal GOAL_def)

lemma isdigit_ex1: "list_all py_isdigit (code_points ''123456780'')"
  by (simp add: code_points_def py_isdigit_def is_decimal_def ascii_decimal)

text \<open>Nine Arabic-Indic digits (the code points 1632 to 1641) are read as a board.\<close>

lemma parse_arabic_indic:
  "parse_state [1633, 1634, 1635, 1636, 1637, 1638, 1639, 1640, 1632] = Inr (Some GOAL)"
proof -
  let ?t = "[1633, 1634, 1635, 1636, 1637, 1638, 1639, 1640, 1632 :: nat]"
  have dv: "digit_values ?t = Some GOAL"
    by (simp add: digit_values_def to_decimal_def decimal_zeros_def GOAL_def)
  then have "list_all is_decimal ?t" using digit_values_None [of ?t] by simp
  then have d: "list_all py_isdigit ?t" by (simp add: list_all_iff decimal_isdigit)
  have s: "?t = py_strip ?t"
    by (simp add: py_strip_def py_isspace_def whitespace_points_def)
  have "parse_state ?t =
          (case digit_values ?t of None \<Rightarrow> Inl ValueError
           | Some vals \<Rightarrow> if is_board vals then Inr (Some vals) else Inr None)"
    by (rule parse_state_digits [OF d _ s]) simp
  then show ?thesis unfolding dv using is_board_GOAL by simp
qed

text \<open>Eight digits and a superscript two (the code point 178): \<^verbatim>\<open>str.isdigit\<close> holds for
  each of the nine characters, \<^verbatim>\<open>int\<close> does not read the last, and its ValueError leaves
  \<^verbatim>\<open>parse_state\<close>.\<close>

lemma parse_superscript:
  "parse_state [49, 50, 51, 52, 53, 54, 55, 56, 178] = Inl ValueError"
proof -
  let ?t = "[49, 50, 51, 52, 53, 54, 55, 56, 178 :: nat]"
  have n: "to_decimal 178 = None" by (simp add: to_decimal_def decimal_zeros_def)
  have dv: "digit_values ?t = None"
    by (simp add: digit_values_def ascii_decimal n)
  have "py_isdigit 178" by (simp add: py_isdigit_def other_digits_def)
  then have d: "list_all py_isdigit ?t"
    by (simp add: py_isdigit_def is_decimal_def ascii_decimal)
  have s: "?t = py_strip ?t"
    by (simp add: py_strip_def py_isspace_def whitespace_points_def)
  have "parse_state ?t =
          (case digit_values ?t of None \<Rightarrow> Inl ValueError
           | Some vals \<Rightarrow> if is_board vals then Inr (Some vals) else Inr None)"
    by (rule parse_state_digits [OF d _ s]) simp
  then show ?thesis unfolding dv by simp
qed

subsection \<open>The texts that are read as a board\<close>

text \<open>
  Claim C8, as amended. A text is a list of code points. \<^const>\<open>parse_state\<close> returns a board
  \<open>vals\<close> exactly when the text, once its leading and trailing white space is stripped,
  either consists of 9 decimal digits whose values are \<open>vals\<close>, a permutation of 0..8, or
  splits at white space, commas and semicolons into 9 tokens that \<^verbatim>\<open>int\<close> reads as \<open>vals\<close>,
  a permutation of 0..8. On every other text it returns no board; it returns \<^verbatim>\<open>None\<close>
  there, the texts of \<^const>\<open>unread_digit\<close> left aside, of which nothing more is said.
\<close>

theorem parse_state_forms:
  "(parse_state text = Inr (Some vals) \<longleftrightarrow>
      digits_form (py_strip text) vals \<or> tokens_form (py_strip text) vals) \<and>
   (\<not> unread_digit (py_strip text) \<longrightarrow> (\<exists>r. parse_state text = Inr r))"
proof (cases "list_all py_isdigit (py_strip text) \<and> length (py_strip text) = 9")
  case True
  then have d: "list_all py_isdigit (py_strip text)" and l: "length (py_strip text) = 9" by simp_all
  have tok: "\<not> tokens_form (py_strip text) vals"
    by (simp add: tokens_form_def digits_single_token [OF d l])
  have un: "unread_digit (py_strip text) \<longleftrightarrow> digit_values (py_strip text) = None"
    using d l by (simp add: unread_digit_def digit_values_None)
  show ?thesis
    unfolding parse_state_digits [OF d l refl]
    using tok l un by (auto simp: digits_form_def split: option.splits)
next
  case False
  have "list_all py_isdigit (py_strip text)" if "digit_values (py_strip text) = Some vals"
    using that digit_values_None [of "py_strip text"] by (simp add: list_all_iff decimal_isdigit)
  then have dig: "\<not> digits_form (py_strip text) vals"
    using False by (auto simp: digits_form_def)
  show ?thesis
    unfolding parse_state_tokens [OF False refl]
    using dig by (auto simp: tokens_form_def split: option.splits)
qed

theorem parse_state_forms_witness:
  "\<not> unread_digit (py_strip (code_points ''8,6,7;2 5 4 3 0 1'')) \<and>
   parse_state (code_points ''8,6,7;2 5 4 3 0 1'') = Inr (Some [8, 6, 7, 2, 5, 4, 3, 0, 1])"
proof -
  have "those (map py_int [[56], [54], [55], [50], [53], [52], [51], [48], [49]]) =
          Some [8, 6, 7, 2, 5, 4, 3, 0, 1]"
    by (simp add: py_int_single ascii_decimal)
  moreover have "is_board [8, 6, 7, 2, 5, 4, 3, 0, 1]"
    by (simp add: is_board_mset)
  ultimately have "tokens_form (code_points ''8,6,7;2 5 4 3 0 1'') [8, 6, 7, 2, 5, 4, 3, 0, 1]"
    unfolding tokens_form_def split_ex2 by simp
  moreover have "\<not> unread_digit (code_points ''8,6,7;2 5 4 3 0 1'')"
    by (simp add: unread_digit_def code_points_def)
  ultimately show ?thesis
    using parse_state_forms [of "code_points ''8,6,7;2 5 4 3 0 1''" "[8, 6, 7, 2, 5, 4, 3, 0, 1]"]
    by (simp add: strip_ex2)
qed

text \<open>
  Claim C8 as worded speaks of the text itself. A text of ten characters, a space followed
  by 9 digits, is read as a board, although it neither is 9 characters long nor holds 9
  separated tokens.
\<close>

theorem parse_state_padded:
  "parse_state (code_points '' 123456780'') = Inr (Some [1, 2, 3, 4, 5, 6, 7, 8, 0]) \<and>
   \<not> digits_form (code_points '' 123456780'') [1, 2, 3, 4, 5, 6, 7, 8, 0] \<and>
   \<not> tokens_form (code_points '' 123456780'') [1, 2, 3, 4, 5, 6, 7, 8, 0]"
proof -
  have "parse_state (code_points '' 123456780'') =
          (case digit_values (code_points ''123456780'') of None \<Rightarrow> Inl ValueError
           | Some vals \<Rightarrow> if is_board vals then Inr (Some vals) else Inr None)"
    by (rule parse_state_digits [OF isdigit_ex1 _ strip_ex1 [symmetric]])
      (simp add: code_points_def)
  then have "parse_state (code_points '' 123456780'') = Inr (Some GOAL)"
    unfolding digits_ex1 using is_board_GOAL by simp
  moreover have "\<not> digits_form (code_points '' 123456780'') GOAL"
    by (simp add: digits_form_def code_points_def)
  moreover have "split_on is_separator [] (code_points '' 123456780'') =
      [code_points ''123456780'']"
    by (simp add: is_separator_def py_isspace_def whitespace_points_def code_points_def)
  then have "\<not> tokens_form (code_points '' 123456780'') GOAL"
    by (simp add: tokens_form_def)
  ultimately show ?thesis by (simp add: GOAL_def)
qed

section \<open>The search finds a shortest move list\<close>

lemma opt_inv_distinct: "opt_inv start C D st \<Longrightarrow> distinct (open_heap st)"
  unfolding opt_inv_def by (elim conjE)

lemma opt_inv_entry:
  assumes "opt_inv start C D st" "(f, g, s) \<in> set (open_heap st)"
  shows "f = g + manhattan_val s \<and> (\<exists>g'. g_cost st s = Some g' \<and> g' \<le> g)"
proof -
  from assms(1) have "\<forall>f g s. (f, g, s) \<in> set (open_heap st) \<longrightarrow>
        f = g + manhattan_val s \<and> (\<exists>g'. g_cost st s = Some g' \<and> g' \<le> g)"
    unfolding opt_inv_def by (elim conjE)
  then show ?thesis using assms(2) by blast
qed

lemma opt_inv_open:
  assumes "opt_inv start C D st" "g_cost st s = Some g" "s \<notin> D"
  shows "(g + manhattan_val s, g, s) \<in> set (open_heap st)"
proof -
  from assms(1) have "\<forall>s g. g_cost st s = Some g \<longrightarrow> s \<notin> D \<longrightarrow>
        (g + manhattan_val s, g, s) \<in> set (open_heap st)"
    unfolding opt_inv_def by (elim conjE)
  then show ?thesis using assms(2,3) by blast
qed

lemma opt_inv_closed:
  assumes "opt_inv start C D st" "s \<in> C"
  shows "s \<noteq> GOAL \<and>
   (\<exists>g. g_cost st s = Some g \<and>
      (\<forall>ms. replay start ms = Inr (Some s) \<longrightarrow> g \<le> int (length ms)) \<and>
      (\<forall>f. (f, g, s) \<notin> set (open_heap st)) \<and>
      (\<forall>z nb. py_index s 0 = Some z \<longrightarrow> nb \<in> set (neighbors z) \<longrightarrow>
         (\<exists>gt. g_cost st (swap_tiles s z nb) = Some gt \<and> gt \<le> g + 1)))"
proof -
  from assms(1) have "\<forall>s \<in> C. s \<noteq> GOAL \<and>
        (\<exists>g. g_cost st s = Some g \<and>
           (\<forall>ms. replay start ms = Inr (Some s) \<longrightarrow> g \<le> int (length ms)) \<and>
           (\<forall>f. (f, g, s) \<notin> set (open_heap st)) \<and>
           (\<forall>z nb. py_index s 0 = Some z \<longrightarrow> nb \<in> set (neighbors z) \<longrightarrow>
              (\<exists>gt. g_cost st (swap_tiles s z nb) = Some gt \<and> gt \<le> g + 1)))"
    unfolding opt_inv_def by (elim conjE)
  then show ?thesis using assms(2) by (rule bspec)
qed

lemma opt_inv_bound:
  assumes "opt_inv start C D st" "g_cost st s = Some g"
  shows "g \<le> int (card D)"
proof -
  from assms(1) have "\<forall>s g. g_cost st s = Some g \<longrightarrow> g \<le> int (card D)"
    unfolding opt_inv_def by (elim conjE)
  then show ?thesis using assms(2) by blast
qed

lemma replay_snoc:
  assumes "replay b (ms @ [m]) = Inr (Some t)"
  shows "\<exists>t'. replay b ms = Inr (Some t') \<and> apply_move_by_tile_value t' m = Inr (Some t)"
  using assms by (auto simp: replay_append split: sum.splits option.splits)

lemma replay_join:
  "replay b ms1 = Inr (Some u) \<Longrightarrow> replay u ms2 = Inr (Some t) \<Longrightarrow>
   replay b (ms1 @ ms2) = Inr (Some t)"
  by (simp add: replay_append)

lemma replay_consistent:
  "is_board b \<Longrightarrow> replay b ms = Inr (Some c) \<Longrightarrow>
   manhattan_val b \<le> int (length ms) + manhattan_val c"
proof (induction ms arbitrary: b)
  case Nil
  then show ?case by simp
next
  case (Cons m ms)
  from Cons.prems(2) obtain b' where m: "apply_move_by_tile_value b m = Inr (Some b')"
    and r: "replay b' ms = Inr (Some c)"
    by (auto split: sum.splits option.splits)
  from apply_move_board [OF Cons.prems(1) m]
  have b': "is_board b'" and d: "\<bar>manhattan_val b' - manhattan_val b\<bar> \<le> 1" by simp_all
  from Cons.IH [OF b' r] d show ?case by simp
qed

text \<open>On every move list from the start state to a state that is not expanded lies a
  state that is not expanded and whose cost is at most its place in the list.\<close>

lemma frontier:
  assumes T: "tree_inv start st" and O: "opt_inv start C D st"
  shows "replay start ms = Inr (Some t) \<Longrightarrow> t \<notin> C \<Longrightarrow>
    \<exists>ms1 ms2 u gu. ms = ms1 @ ms2 \<and> replay start ms1 = Inr (Some u) \<and>
       replay u ms2 = Inr (Some t) \<and> g_cost st u = Some gu \<and> gu \<le> int (length ms1) \<and> u \<notin> C"
proof (induction ms arbitrary: t rule: rev_induct)
  case Nil
  then have "t = start" by simp
  moreover have "g_cost st start = Some 0" using T unfolding tree_inv_def by blast
  ultimately show ?case using Nil.prems(2)
    by (intro exI [of _ "[]"] exI [of _ start] exI [of _ 0]) simp
next
  case (snoc m ms)
  from replay_snoc [OF snoc.prems(1)] obtain t' where
    r: "replay start ms = Inr (Some t')" and mv: "apply_move_by_tile_value t' m = Inr (Some t)"
    by blast
  show ?case
  proof (cases "t' \<in> C")
    case True
    from apply_move_SomeD [OF mv] obtain z nb where
      z: "py_index t' 0 = Some z" and nb: "nb \<in> set (neighbors z)" and t: "t = swap_tiles t' z nb"
      by blast
    from opt_inv_closed [OF O True] obtain g where g: "g_cost st t' = Some g"
      and opt: "\<forall>ms. replay start ms = Inr (Some t') \<longrightarrow> g \<le> int (length ms)"
      and nbs: "\<forall>z nb. py_index t' 0 = Some z \<longrightarrow> nb \<in> set (neighbors z) \<longrightarrow>
              (\<exists>gt. g_cost st (swap_tiles t' z nb) = Some gt \<and> gt \<le> g + 1)"
      by (elim conjE exE)
    from nbs z nb t obtain gt where gt: "g_cost st t = Some gt" "gt \<le> g + 1" by blast
    have "g \<le> int (length ms)" using opt r by blast
    then have "gt \<le> int (length (ms @ [m]))" using gt(2) by simp
    then show ?thesis
      using snoc.prems gt(1)
      by (intro exI [of _ "ms @ [m]"] exI [of _ "[]"] exI [of _ t] exI [of _ gt]) simp
  next
    case False
    from snoc.IH [OF r False] obtain ms1 ms2 u gu where
      f: "ms = ms1 @ ms2" "replay start ms1 = Inr (Some u)" "replay u ms2 = Inr (Some t')"
      "g_cost st u = Some gu" "gu \<le> int (length ms1)" "u \<notin> C" by blast
    have "replay u (ms2 @ [m]) = Inr (Some t)"
      using f(3) mv by (simp add: replay_append)
    then show ?thesis
      using f by (intro exI [of _ ms1] exI [of _ "ms2 @ [m]"] exI [of _ u] exI [of _ gu]) simp
  qed
qed


lemma opt_invI:
  assumes "distinct (open_heap st)"
    and "\<And>f g s. (f, g, s) \<in> set (open_heap st) \<Longrightarrow>
        f = g + manhattan_val s \<and> (\<exists>g'. g_cost st s = Some g' \<and> g' \<le> g)"
    and "\<And>s g. g_cost st s = Some g \<Longrightarrow> s \<notin> D \<Longrightarrow>
        (g + manhattan_val s, g, s) \<in> set (open_heap st)"
    and "\<And>s. s \<in> C \<Longrightarrow> s \<noteq> GOAL \<and>
        (\<exists>g. g_cost st s = Some g \<and>
           (\<forall>ms. replay start ms = Inr (Some s) \<longrightarrow> g \<le> int (length ms)) \<and>
           (\<forall>f. (f, g, s) \<notin> set (open_heap st)) \<and>
           (\<forall>z nb. py_index s 0 = Some z \<longrightarrow> nb \<in> set (neighbors z) \<longrightarrow>
              (\<exists>gt. g_cost st (swap_tiles s z nb) = Some gt \<and> gt \<le> g + 1)))"
    and "\<And>s g. g_cost st s = Some g \<Longrightarrow> g \<le> int (card D)"
  shows "opt_inv start C D st"
  unfolding opt_inv_def
proof (intro conjI allI ballI impI)
  show "distinct (open_heap st)" by (rule assms(1))
next
  fix f g s assume "(f, g, s) \<in> set (open_heap st)"
  from assms(2) [OF this] show "f = g + manhattan_val s" by simp
next
  fix f g s assume "(f, g, s) \<in> set (open_heap st)"
  from assms(2) [OF this] show "\<exists>g'. g_cost st s = Some g' \<and> g' \<le> g" by simp
next
  fix s g assume "g_cost st s = Some g" "s \<notin> D"
  then show "(g + manhattan_val s, g, s) \<in> set (open_heap st)" by (rule assms(3))
next
  fix s assume "s \<in> C"
  from assms(4) [OF this] show "s \<noteq> GOAL" by simp
next
  fix s assume "s \<in> C"
  from assms(4) [OF this] show "\<exists>g. g_cost st s = Some g \<and>
           (\<forall>ms. replay start ms = Inr (Some s) \<longrightarrow> g \<le> int (length ms)) \<and>
           (\<forall>f. (f, g, s) \<notin> set (open_heap st)) \<and>
           (\<forall>z nb. py_index s 0 = Some z \<longrightarrow> nb \<in> set (neighbors z) \<longrightarrow>
              (\<exists>gt. g_cost st (swap_tiles s z nb) = Some gt \<and> gt \<le> g + 1))" by simp
next
  fix s g assume "g_cost st s = Some g"
  then show "g \<le> int (card D)" by (rule assms(5))
qed

text \<open>Taking an entry off the heap.\<close>

lemma opt_inv_pop:
  assumes O: "opt_inv start C C st" and sub: "C \<subseteq> D" and fin: "finite D"
    and live: "g_cost st s = Some g \<Longrightarrow> s \<in> D"
  shows "opt_inv start C D (st\<lparr>open_heap := remove1 (f, g, s) (open_heap st)\<rparr>)"
proof (rule opt_invI)
  let ?st = "st\<lparr>open_heap := remove1 (f, g, s) (open_heap st)\<rparr>"
  show "distinct (open_heap ?st)" using opt_inv_distinct [OF O] by simp
  show "f' = g' + manhattan_val s' \<and> (\<exists>g''. g_cost ?st s' = Some g'' \<and> g'' \<le> g')"
    if "(f', g', s') \<in> set (open_heap ?st)" for f' g' s'
  proof -
    have "(f', g', s') \<in> set (open_heap st)"
      using that notin_set_remove1 [of "(f', g', s')" "open_heap st" "(f, g, s)"] by auto
    from opt_inv_entry [OF O this] show ?thesis by simp
  qed
  show "(g' + manhattan_val s', g', s') \<in> set (open_heap ?st)"
    if c: "g_cost ?st s' = Some g'" and nd: "s' \<notin> D" for s' g'
  proof -
    have c': "g_cost st s' = Some g'" using c by simp
    have "s' \<notin> C" using nd sub by blast
    from opt_inv_open [OF O c' this] have m: "(g' + manhattan_val s', g', s') \<in> set (open_heap st)" .
    have "(g' + manhattan_val s', g', s') \<noteq> (f, g, s)"
      using live c' nd by auto
    then show ?thesis using m by simp
  qed
  show "s' \<noteq> GOAL \<and>
        (\<exists>g. g_cost ?st s' = Some g \<and>
           (\<forall>ms. replay start ms = Inr (Some s') \<longrightarrow> g \<le> int (length ms)) \<and>
           (\<forall>f. (f, g, s') \<notin> set (open_heap ?st)) \<and>
           (\<forall>z nb. py_index s' 0 = Some z \<longrightarrow> nb \<in> set (neighbors z) \<longrightarrow>
              (\<exists>gt. g_cost ?st (swap_tiles s' z nb) = Some gt \<and> gt \<le> g + 1)))"
    if "s' \<in> C" for s'
  proof -
    from opt_inv_closed [OF O that] obtain g' where
      c: "s' \<noteq> GOAL" "g_cost st s' = Some g'"
      "\<forall>ms. replay start ms = Inr (Some s') \<longrightarrow> g' \<le> int (length ms)"
      "\<forall>f. (f, g', s') \<notin> set (open_heap st)"
      "\<forall>z nb. py_index s' 0 = Some z \<longrightarrow> nb \<in> set (neighbors z) \<longrightarrow>
              (\<exists>gt. g_cost st (swap_tiles s' z nb) = Some gt \<and> gt \<le> g' + 1)"
      by (elim conjE exE)
    have "\<forall>f'. (f', g', s') \<notin> set (open_heap ?st)"
      using c(4) notin_set_remove1 [of _ "open_heap st" "(f, g, s)"] by auto
    then show ?thesis using c by simp
  qed
  show "g' \<le> int (card D)" if "g_cost ?st s' = Some g'" for s' g'
  proof -
    have "g' \<le> int (card C)" using opt_inv_bound [OF O] that by simp
    moreover have "card C \<le> card D" using sub fin by (rule card_mono [rotated])
    ultimately show ?thesis by simp
  qed
qed

lemma entry_le_fst:
  fixes f f' g g' :: int and s s' :: board
  shows "(f, g, s) \<le> (f', g', s') \<Longrightarrow> f \<le> f'"
  by (auto simp: less_eq_prod_def)

text \<open>The entry that is taken off the heap, when it is the entry of the cost of its state,
  has the least cost of all move lists to that state.\<close>

lemma pop_optimal:
  assumes T: "tree_inv start st" and O: "opt_inv start C C st"
    and mem: "(f, g, s) \<in> set (open_heap st)"
    and least: "\<forall>x \<in> set (open_heap st). (f, g, s) \<le> x"
    and live: "g_cost st s = Some g"
  shows "s \<notin> C \<and> (\<forall>ms. replay start ms = Inr (Some s) \<longrightarrow> g \<le> int (length ms))"
proof -
  have nc: "s \<notin> C"
  proof
    assume "s \<in> C"
    from opt_inv_closed [OF O this] live have "\<forall>f. (f, g, s) \<notin> set (open_heap st)" by auto
    then show False using mem by blast
  qed
  have "g \<le> int (length ms)" if r: "replay start ms = Inr (Some s)" for ms
  proof -
    from frontier [OF T O r nc] obtain ms1 ms2 u gu where
      f: "ms = ms1 @ ms2" "replay start ms1 = Inr (Some u)" "replay u ms2 = Inr (Some s)"
      "g_cost st u = Some gu" "gu \<le> int (length ms1)" "u \<notin> C" by blast
    have ub: "is_board u" using T f(4) unfolding tree_inv_def by blast
    have "(gu + manhattan_val u, gu, u) \<in> set (open_heap st)"
      by (rule opt_inv_open [OF O f(4) f(6)])
    then have "(f, g, s) \<le> (gu + manhattan_val u, gu, u)" using least by blast
    then have "f \<le> gu + manhattan_val u" by (rule entry_le_fst)
    moreover have "f = g + manhattan_val s" using opt_inv_entry [OF O mem] by simp
    moreover have "manhattan_val u \<le> int (length ms2) + manhattan_val s"
      by (rule replay_consistent [OF ub f(3)])
    ultimately show ?thesis using f(1) f(5) by simp
  qed
  then show ?thesis using nc by blast
qed


text \<open>One step of the loop over the neighbours.\<close>

lemma relax_opt:
  assumes T: "tree_inv start st" and O: "opt_inv start C D st"
    and g: "g_cost st state = Some g"
    and z: "py_index state 0 = Some z" and nb: "nb \<in> set (neighbors z)"
    and bound: "g + 1 \<le> int (card D)" and small: "int (card D) < 10 ^ 9"
  shows "\<exists>st'. relax state g z st nb = Inr st' \<and> tree_inv start st' \<and> opt_inv start C D st' \<and>
     g_cost st' state = Some g \<and>
     (\<exists>gt. g_cost st' (swap_tiles state z nb) = Some gt \<and> gt \<le> g + 1) \<and>
     (\<forall>t gt. g_cost st t = Some gt \<longrightarrow> (\<exists>gt'. g_cost st' t = Some gt' \<and> gt' \<le> gt)) \<and>
     (\<forall>f. (f, g, state) \<notin> set (open_heap st) \<longrightarrow> (f, g, state) \<notin> set (open_heap st'))"
proof -
  from relax_tree [OF T g z nb] obtain st' where
    r: "relax state g z st nb = Inr st'" and T': "tree_inv start st'"
    and g': "g_cost st' state = Some g" by blast
  have b: "is_board state" using T g unfolding tree_inv_def by blast
  have z9: "z < 9" using py_index_Some [OF z] b by (simp add: is_board_def)
  have nb9: "\<not> length state \<le> nb" using neighbors_bound [OF z9 nb] b by (simp add: is_board_def)
  define t where "t = swap_tiles state z nb"
  have tb: "is_board t" unfolding t_def by (rule swap_board [OF b z nb])
  have mv: "apply_move_by_tile_value state (state ! nb) = Inr (Some t)"
    unfolding t_def by (rule swap_move [OF b z nb])
  show ?thesis
  proof (cases "g + 1 < g_cost_get (g_cost st) t")
    case False
    have same: "st' = st"
      using r nb9 False by (simp add: relax_def Let_def t_def)
    have "\<exists>gt. g_cost st t = Some gt \<and> gt \<le> g + 1"
    proof (cases "g_cost st t")
      case None
      then have "(10 :: int) ^ 9 \<le> g + 1" using False by (simp add: g_cost_get_def)
      then show ?thesis using bound small by simp
    next
      case (Some gt)
      then show ?thesis using False by (simp add: g_cost_get_def)
    qed
    then show ?thesis
      using r T O g unfolding same t_def by auto
  next
    case True
    define new where "new = (g + 1 + manhattan_val t, g + 1, t)"
    have st': "st' = st\<lparr>g_cost := (g_cost st)(t \<mapsto> g + 1),
        parent := (parent st)(t \<mapsto> (state, state ! nb)),
        open_heap := new # open_heap st\<rparr>"
      using r nb9 True
      by (simp add: relax_def Let_def t_def [symmetric] manhattan_val [OF tb] heappush_def new_def)
    have gc: "g_cost st' = (g_cost st)(t \<mapsto> g + 1)" and hp: "open_heap st' = new # open_heap st"
      by (simp_all add: st')
    have lower: "g + 1 < gt" if "g_cost st t = Some gt" for gt
      using True that by (simp add: g_cost_get_def)
    have tC: "t \<notin> C"
    proof
      assume "t \<in> C"
      from opt_inv_closed [OF O this] obtain gt where
        c: "g_cost st t = Some gt" "\<forall>ms. replay start ms = Inr (Some t) \<longrightarrow> gt \<le> int (length ms)"
        by (elim conjE exE)
      from reconstruct_tree [OF T g] obtain ms where
        ms: "replay start ms = Inr (Some state)" "int (length ms) \<le> g" by blast
      have "replay start (ms @ [state ! nb]) = Inr (Some t)"
        using ms(1) mv by (simp add: replay_append)
      then have "gt \<le> int (length (ms @ [state ! nb]))" using c(2) by blast
      then show False using lower [OF c(1)] ms(2) by simp
    qed
    have O': "opt_inv start C D st'"
    proof (rule opt_invI)
      have "new \<notin> set (open_heap st)"
      proof
        assume "new \<in> set (open_heap st)"
        then have "\<exists>g'. g_cost st t = Some g' \<and> g' \<le> g + 1"
          using opt_inv_entry [OF O, of "g + 1 + manhattan_val t" "g + 1" t] by (simp add: new_def)
        then show False using lower by fastforce
      qed
      then show "distinct (open_heap st')" using opt_inv_distinct [OF O] by (simp add: hp)
    next
      fix f' g' s' assume m: "(f', g', s') \<in> set (open_heap st')"
      show "f' = g' + manhattan_val s' \<and> (\<exists>g''. g_cost st' s' = Some g'' \<and> g'' \<le> g')"
      proof (cases "(f', g', s') = new")
        case True
        then show ?thesis by (simp add: new_def gc)
      next
        case False
        then have "(f', g', s') \<in> set (open_heap st)" using m by (simp add: hp)
        from opt_inv_entry [OF O this] obtain g'' where
          e: "f' = g' + manhattan_val s'" "g_cost st s' = Some g''" "g'' \<le> g'" by blast
        show ?thesis
        proof (cases "s' = t")
          case True
          then show ?thesis using e lower [of g''] by (simp add: gc)
        next
          case False
          then show ?thesis using e by (simp add: gc)
        qed
      qed
    next
      fix s' g' assume c: "g_cost st' s' = Some g'" and nd: "s' \<notin> D"
      show "(g' + manhattan_val s', g', s') \<in> set (open_heap st')"
      proof (cases "s' = t")
        case True
        then show ?thesis using c by (simp add: gc hp new_def)
      next
        case False
        then have "g_cost st s' = Some g'" using c by (simp add: gc)
        from opt_inv_open [OF O this nd] show ?thesis by (simp add: hp)
      qed
    next
      fix s' assume sC: "s' \<in> C"
      then have ne: "s' \<noteq> t" using tC by blast
      from opt_inv_closed [OF O sC] obtain g' where
        c: "s' \<noteq> GOAL" "g_cost st s' = Some g'"
        "\<forall>ms. replay start ms = Inr (Some s') \<longrightarrow> g' \<le> int (length ms)"
        "\<forall>f. (f, g', s') \<notin> set (open_heap st)"
        "\<forall>z nb. py_index s' 0 = Some z \<longrightarrow> nb \<in> set (neighbors z) \<longrightarrow>
              (\<exists>gt. g_cost st (swap_tiles s' z nb) = Some gt \<and> gt \<le> g' + 1)"
        by (elim conjE exE)
      have 1: "g_cost st' s' = Some g'" using c(2) ne by (simp add: gc)
      have 2: "\<forall>f. (f, g', s') \<notin> set (open_heap st')"
        using c(4) ne by (simp add: hp new_def)
      have 3: "\<exists>gt. g_cost st' (swap_tiles s' z' nb') = Some gt \<and> gt \<le> g' + 1"
        if "py_index s' 0 = Some z'" "nb' \<in> set (neighbors z')" for z' nb'
      proof -
        from c(5) that obtain gt where gt: "g_cost st (swap_tiles s' z' nb') = Some gt" "gt \<le> g' + 1"
          by blast
        show ?thesis
        proof (cases "swap_tiles s' z' nb' = t")
          case True
          then show ?thesis using gt lower [of gt] by (simp add: gc)
        next
          case False
          then show ?thesis using gt by (simp add: gc)
        qed
      qed
      show "s' \<noteq> GOAL \<and>
        (\<exists>g. g_cost st' s' = Some g \<and>
           (\<forall>ms. replay start ms = Inr (Some s') \<longrightarrow> g \<le> int (length ms)) \<and>
           (\<forall>f. (f, g, s') \<notin> set (open_heap st')) \<and>
           (\<forall>z nb. py_index s' 0 = Some z \<longrightarrow> nb \<in> set (neighbors z) \<longrightarrow>
              (\<exists>gt. g_cost st' (swap_tiles s' z nb) = Some gt \<and> gt \<le> g + 1)))"
        using c(1) c(3) 1 2 3 by blast
    next
      fix s' g' assume c: "g_cost st' s' = Some g'"
      show "g' \<le> int (card D)"
      proof (cases "s' = t")
        case True
        then show ?thesis using c bound by (simp add: gc)
      next
        case False
        then have "g_cost st s' = Some g'" using c by (simp add: gc)
        then show ?thesis by (rule opt_inv_bound [OF O])
      qed
    qed
    have 4: "\<exists>gt. g_cost st' (swap_tiles state z nb) = Some gt \<and> gt \<le> g + 1"
      by (simp add: gc t_def [symmetric])
    have 5: "\<exists>gt'. g_cost st' t' = Some gt' \<and> gt' \<le> gt" if "g_cost st t' = Some gt" for t' gt
    proof (cases "t' = t")
      case True
      then show ?thesis using that lower [of gt] by (simp add: gc)
    next
      case False
      then show ?thesis using that by (simp add: gc)
    qed
    have 6: "(f, g, state) \<notin> set (open_heap st')" if "(f, g, state) \<notin> set (open_heap st)" for f
      using that by (simp add: hp new_def)
    show ?thesis using r T' O' g' 4 5 6 by blast
  qed
qed


text \<open>The loop over the neighbours.\<close>

lemma expand_opt:
  assumes z: "py_index state 0 = Some z"
    and bound: "g + 1 \<le> int (card D)" and small: "int (card D) < 10 ^ 9"
  shows "set nbs \<subseteq> set (neighbors z) \<Longrightarrow> tree_inv start st \<Longrightarrow> opt_inv start C D st \<Longrightarrow>
     g_cost st state = Some g \<Longrightarrow>
     \<exists>st'. expand state g z nbs st = Inr st' \<and> tree_inv start st' \<and> opt_inv start C D st' \<and>
       g_cost st' state = Some g \<and>
       (\<forall>nb \<in> set nbs. \<exists>gt. g_cost st' (swap_tiles state z nb) = Some gt \<and> gt \<le> g + 1) \<and>
       (\<forall>t gt. g_cost st t = Some gt \<longrightarrow> (\<exists>gt'. g_cost st' t = Some gt' \<and> gt' \<le> gt)) \<and>
       (\<forall>f. (f, g, state) \<notin> set (open_heap st) \<longrightarrow> (f, g, state) \<notin> set (open_heap st'))"
proof (induction nbs arbitrary: st)
  case Nil
  then show ?case by simp
next
  case (Cons nb nbs)
  from Cons.prems have nb: "nb \<in> set (neighbors z)" and rest: "set nbs \<subseteq> set (neighbors z)" by auto
  from relax_opt [OF Cons.prems(2) Cons.prems(3) Cons.prems(4) z nb bound small] obtain st1 where
    r: "relax state g z st nb = Inr st1" and T1: "tree_inv start st1"
    and O1: "opt_inv start C D st1" and g1: "g_cost st1 state = Some g"
    and n1: "\<exists>gt. g_cost st1 (swap_tiles state z nb) = Some gt \<and> gt \<le> g + 1"
    and m1: "\<forall>t gt. g_cost st t = Some gt \<longrightarrow> (\<exists>gt'. g_cost st1 t = Some gt' \<and> gt' \<le> gt)"
    and e1: "\<forall>f. (f, g, state) \<notin> set (open_heap st) \<longrightarrow> (f, g, state) \<notin> set (open_heap st1)"
    by (elim exE conjE) blast
  from Cons.IH [OF rest T1 O1 g1] obtain st2 where
    x: "expand state g z nbs st1 = Inr st2" and T2: "tree_inv start st2"
    and O2: "opt_inv start C D st2" and g2: "g_cost st2 state = Some g"
    and n2: "\<forall>nb \<in> set nbs. \<exists>gt. g_cost st2 (swap_tiles state z nb) = Some gt \<and> gt \<le> g + 1"
    and m2: "\<forall>t gt. g_cost st1 t = Some gt \<longrightarrow> (\<exists>gt'. g_cost st2 t = Some gt' \<and> gt' \<le> gt)"
    and e2: "\<forall>f. (f, g, state) \<notin> set (open_heap st1) \<longrightarrow> (f, g, state) \<notin> set (open_heap st2)"
    by (elim exE conjE)
  have x': "expand state g z (nb # nbs) st = Inr st2" by (simp add: r x)
  have n: "\<forall>nb' \<in> set (nb # nbs). \<exists>gt. g_cost st2 (swap_tiles state z nb') = Some gt \<and> gt \<le> g + 1"
  proof
    fix nb' assume "nb' \<in> set (nb # nbs)"
    then consider "nb' = nb" | "nb' \<in> set nbs" by auto
    then show "\<exists>gt. g_cost st2 (swap_tiles state z nb') = Some gt \<and> gt \<le> g + 1"
    proof cases
      case 1
      from n1 obtain gt where "g_cost st1 (swap_tiles state z nb) = Some gt" "gt \<le> g + 1" by blast
      moreover from m2 this(1) obtain gt' where
        "g_cost st2 (swap_tiles state z nb) = Some gt'" "gt' \<le> gt" by blast
      ultimately show ?thesis using 1 by auto
    next
      case 2
      then show ?thesis using n2 by blast
    qed
  qed
  have m: "\<forall>t gt. g_cost st t = Some gt \<longrightarrow> (\<exists>gt'. g_cost st2 t = Some gt' \<and> gt' \<le> gt)"
  proof (intro allI impI)
    fix t gt assume "g_cost st t = Some gt"
    with m1 obtain gt1 where a: "g_cost st1 t = Some gt1" "gt1 \<le> gt" by blast
    with m2 obtain gt2 where "g_cost st2 t = Some gt2" "gt2 \<le> gt1" by blast
    then show "\<exists>gt'. g_cost st2 t = Some gt' \<and> gt' \<le> gt" using a(2) by auto
  qed
  have e: "\<forall>f. (f, g, state) \<notin> set (open_heap st) \<longrightarrow> (f, g, state) \<notin> set (open_heap st2)"
    using e1 e2 by blast
  show ?case using x' T2 O2 g2 n m e by blast
qed

text \<open>The state that was expanded joins the expanded states.\<close>

lemma opt_inv_close:
  assumes O: "opt_inv start C (insert s C) st" and g: "g_cost st s = Some g"
    and ng: "s \<noteq> GOAL"
    and opt: "\<forall>ms. replay start ms = Inr (Some s) \<longrightarrow> g \<le> int (length ms)"
    and gone: "\<forall>f. (f, g, s) \<notin> set (open_heap st)"
    and z: "py_index s 0 = Some z"
    and nbs: "\<forall>nb \<in> set (neighbors z). \<exists>gt. g_cost st (swap_tiles s z nb) = Some gt \<and> gt \<le> g + 1"
  shows "opt_inv start (insert s C) (insert s C) st"
proof (rule opt_invI)
  show "distinct (open_heap st)" by (rule opt_inv_distinct [OF O])
  show "f' = g' + manhattan_val s' \<and> (\<exists>g''. g_cost st s' = Some g'' \<and> g'' \<le> g')"
    if "(f', g', s') \<in> set (open_heap st)" for f' g' s'
    using opt_inv_entry [OF O that] .
  show "(g' + manhattan_val s', g', s') \<in> set (open_heap st)"
    if "g_cost st s' = Some g'" "s' \<notin> insert s C" for s' g'
    using opt_inv_open [OF O that] .
  show "g' \<le> int (card (insert s C))" if "g_cost st s' = Some g'" for s' g'
    using opt_inv_bound [OF O that] .
  show "s' \<noteq> GOAL \<and>
        (\<exists>g. g_cost st s' = Some g \<and>
           (\<forall>ms. replay start ms = Inr (Some s') \<longrightarrow> g \<le> int (length ms)) \<and>
           (\<forall>f. (f, g, s') \<notin> set (open_heap st)) \<and>
           (\<forall>z nb. py_index s' 0 = Some z \<longrightarrow> nb \<in> set (neighbors z) \<longrightarrow>
              (\<exists>gt. g_cost st (swap_tiles s' z nb) = Some gt \<and> gt \<le> g + 1)))"
    if "s' \<in> insert s C" for s'
  proof (cases "s' = s")
    case True
    have "\<forall>z' nb. py_index s 0 = Some z' \<longrightarrow> nb \<in> set (neighbors z') \<longrightarrow>
              (\<exists>gt. g_cost st (swap_tiles s z' nb) = Some gt \<and> gt \<le> g + 1)"
      using z nbs by auto
    then show ?thesis using True ng g opt gone by blast
  next
    case False
    then have "s' \<in> C" using that by simp
    then show ?thesis by (rule opt_inv_closed [OF O])
  qed
qed


lemma min_list_least:
  fixes xs :: "entry list"
  assumes "xs \<noteq> []"
  shows "min_list xs \<in> set xs \<and> (\<forall>x \<in> set xs. min_list xs \<le> x)"
  using assms by (simp add: min_list_Min)

text \<open>The main loop, from a state of the search that meets the invariants, on a solvable
  start board and with a budget of at least the number of solvable boards.\<close>

lemma astar_loop_opt:
  assumes sb: "is_board start" and ss: "is_solvable_3x3 start"
  shows "181440 \<le> m \<Longrightarrow> tree_inv start st \<Longrightarrow> opt_inv start C C st \<Longrightarrow> finite C \<Longrightarrow>
     C \<subseteq> {b. is_board b \<and> is_solvable_3x3 b} \<Longrightarrow> int (card C) = n \<Longrightarrow>
     \<exists>ms. astar_loop m st n = Some (Inr (Some ms)) \<and> replay start ms = Inr (Some GOAL) \<and>
          (\<forall>ms'. replay start ms' = Inr (Some GOAL) \<longrightarrow> length ms \<le> length ms')"
proof (induction m st n arbitrary: C rule: astar_loop.induct)
  case (1 m st n)
  note T = "1.prems"(2) and O = "1.prems"(3) and fin = "1.prems"(4) and sub = "1.prems"(5)
    and card = "1.prems"(6) and budget = "1.prems"(1)
  have gC: "GOAL \<notin> C" using opt_inv_closed [OF O] by blast
  have ne: "open_heap st \<noteq> []"
  proof -
    from solve_exists [OF sb ss] obtain ms0 where "replay start ms0 = Inr (Some GOAL)"
      unfolding reachable_def by blast
    from frontier [OF T O this gC] obtain u gu where "g_cost st u = Some gu" "u \<notin> C" by blast
    from opt_inv_open [OF O this] show ?thesis by auto
  qed
  define e where "e = fst (heappop (open_heap st))"
  define st1 where "st1 = st\<lparr>open_heap := snd (heappop (open_heap st))\<rparr>"
  define g where "g = fst (snd e)"
  define state where "state = snd (snd e)"
  define f where "f = fst e"
  have e: "e = (f, g, state)" by (simp add: f_def g_def state_def)
  have emin: "e = min_list (open_heap st)" by (simp add: e_def heappop_def)
  have mem: "(f, g, state) \<in> set (open_heap st)"
    and least: "\<forall>x \<in> set (open_heap st). (f, g, state) \<le> x"
    using min_list_least [OF ne] unfolding emin [symmetric] e by simp_all
  have st1: "st1 = st\<lparr>open_heap := remove1 (f, g, state) (open_heap st)\<rparr>"
    unfolding st1_def heappop_def emin [symmetric] e by simp
  have T1: "tree_inv start st1" unfolding st1_def by (rule tree_inv_pop [OF T])
  have gc1: "g_cost st1 = g_cost st" by (simp add: st1_def)
  from opt_inv_entry [OF O mem] obtain g' where
    fg: "f = g + manhattan_val state" and g': "g_cost st state = Some g'" "g' \<le> g" by blast
  show ?case
  proof (cases "g \<noteq> g_cost_get (g_cost st1) state")
    case True
    then have "g' \<noteq> g" using g' by (simp add: gc1 g_cost_get_def)
    then have O1: "opt_inv start C C st1"
      unfolding st1 using g'(1) by (intro opt_inv_pop [OF O subset_refl fin]) simp
    have "astar_loop m st n = astar_loop m st1 n"
      using ne True
      by (subst astar_loop.simps) (simp add: Let_def e_def [symmetric] st1_def [symmetric]
          g_def [symmetric] state_def [symmetric])
    then show ?thesis
      using "1.IH"(1) [OF ne e_def st1_def g_def state_def True budget T1 O1 fin sub card] by simp
  next
    case live: False
    then have gg: "g_cost st state = Some g" using g' by (simp add: gc1 g_cost_get_def)
    have gg1: "g_cost st1 state = Some g" using gg by (simp add: gc1)
    from pop_optimal [OF T O mem least gg] have nC: "state \<notin> C"
      and opt: "\<forall>ms. replay start ms = Inr (Some state) \<longrightarrow> g \<le> int (length ms)" by simp_all
    from reconstruct_tree [OF T1 gg1] obtain ms where
      ms: "replay start ms = Inr (Some state)" "int (length ms) \<le> g"
      "\<forall>acc. reconstruct (parent st1) state acc = Some (ms @ rev acc)" by blast
    show ?thesis
    proof (cases "state = GOAL")
      case True
      have "astar_loop m st n = map_option (\<lambda>moves. Inr (Some moves)) (reconstruct (parent st1) GOAL [])"
        using ne live True
        by (subst astar_loop.simps) (simp add: Let_def e_def [symmetric] st1_def [symmetric]
            g_def [symmetric] state_def [symmetric])
      then have "astar_loop m st n = Some (Inr (Some ms))" using ms(3) True by simp
      moreover have "replay start ms = Inr (Some GOAL)" using ms(1) True by simp
      moreover have "length ms \<le> length ms'" if "replay start ms' = Inr (Some GOAL)" for ms'
      proof -
        have "g \<le> int (length ms')" using opt that True by blast
        then show ?thesis using ms(2) by simp
      qed
      ultimately show ?thesis by blast
    next
      case ng: False
      define D where "D = insert state C"
      have sbd: "is_board state" and ssv: "is_solvable_3x3 state"
        using replay_board [OF sb ms(1)] ss by simp_all
      have finD: "finite D" and subD: "D \<subseteq> {b. is_board b \<and> is_solvable_3x3 b}"
        and cardD: "int (card D) = n + 1"
        using fin sub sbd ssv nC card by (simp_all add: D_def)
      have "card D \<le> card {b. is_board b \<and> is_solvable_3x3 b}"
        using subD finite_boards by (intro card_mono) simp_all
      then have cD: "card D \<le> 181440" using card_solvable by simp
      then have bud: "\<not> n + 1 > m" using cardD budget by simp
      have small: "int (card D) < 10 ^ 9" using cD by simp
      have bound: "g + 1 \<le> int (card D)"
        using opt_inv_bound [OF O gg] card cardD by simp
      have O1: "opt_inv start C D st1"
        unfolding st1 by (rule opt_inv_pop [OF O _ finD]) (auto simp: D_def)
      have gone1: "\<forall>f'. (f', g, state) \<notin> set (open_heap st1)"
      proof
        fix f'
        show "(f', g, state) \<notin> set (open_heap st1)"
        proof
          assume a: "(f', g, state) \<in> set (open_heap st1)"
          then have "(f', g, state) \<in> set (open_heap st)"
            unfolding st1 using notin_set_remove1 [of "(f', g, state)" "open_heap st" "(f, g, state)"]
            by auto
          from opt_inv_entry [OF O this] fg have "f' = f" by simp
          then show False using a opt_inv_distinct [OF O] unfolding st1 by simp
        qed
      qed
      obtain z where z: "py_index state 0 = Some z" using py_index_board [OF sbd] by blast
      from expand_opt [OF z bound small subset_refl T1 O1 gg1] obtain st2 where
        x: "expand state g z (neighbors z) st1 = Inr st2" and T2: "tree_inv start st2"
        and O2: "opt_inv start C D st2" and g2: "g_cost st2 state = Some g"
        and n2: "\<forall>nb \<in> set (neighbors z). \<exists>gt. g_cost st2 (swap_tiles state z nb) = Some gt \<and> gt \<le> g + 1"
        and e2: "\<forall>f. (f, g, state) \<notin> set (open_heap st1) \<longrightarrow> (f, g, state) \<notin> set (open_heap st2)"
        by (elim exE conjE)
      have gone2: "\<forall>f. (f, g, state) \<notin> set (open_heap st2)" using gone1 e2 by blast
      have O2': "opt_inv start D D st2"
        unfolding D_def by (rule opt_inv_close [OF O2 [unfolded D_def] g2 ng opt gone2 z n2])
      have "astar_loop m st n = astar_loop m st2 (n + 1)"
        using ne live ng bud z x
        by (subst astar_loop.simps) (simp add: Let_def e_def [symmetric] st1_def [symmetric]
            g_def [symmetric] state_def [symmetric])
      moreover have "\<not> g \<noteq> g_cost_get (g_cost st1) state" using live by simp
      ultimately show ?thesis
        using "1.IH"(2) [OF ne e_def st1_def g_def state_def _ ng bud z x budget T2 O2' finD subD cardD]
        by simp
    qed
  qed
qed


lemma opt_inv_init:
  "opt_inv start {} {}
     \<lparr>open_heap = [(manhattan_val start, 0, start)], g_cost = [start \<mapsto> 0], parent = Map.empty\<rparr>"
  by (rule opt_invI) (auto split: if_splits)

text \<open>
  Claim C1. On a solvable start board \<^const>\<open>astar_solve\<close> with the default budget of 250000
  expansions returns a move list; the list replays from the start board to \<^const>\<open>GOAL\<close> with
  every move accepted, and no move list that does so is shorter. For the start board
  [1,2,3,4,5,6,0,7,8] the returned list has length 2.
\<close>

theorem solve_minimal:
  "(is_board start \<and> is_solvable_3x3 start \<longrightarrow>
      (\<exists>ms. astar_solve start 250000 = Some (Inr (Some ms)) \<and>
            replay start ms = Inr (Some GOAL) \<and>
            (\<forall>ms'. replay start ms' = Inr (Some GOAL) \<longrightarrow> length ms \<le> length ms'))) \<and>
   (\<exists>ms. astar_solve [1, 2, 3, 4, 5, 6, 0, 7, 8] 250000 = Some (Inr (Some ms)) \<and> length ms = 2)"
proof (intro conjI impI)
  assume a: "is_board start \<and> is_solvable_3x3 start"
  then have sb: "is_board start" and ss: "is_solvable_3x3 start" by simp_all
  show "\<exists>ms. astar_solve start 250000 = Some (Inr (Some ms)) \<and>
            replay start ms = Inr (Some GOAL) \<and>
            (\<forall>ms'. replay start ms' = Inr (Some GOAL) \<longrightarrow> length ms \<le> length ms')"
  proof (cases "start = GOAL")
    case True
    then have "astar_solve start 250000 = Some (Inr (Some []))" by (simp add: astar_solve_def)
    moreover have "replay start [] = Inr (Some GOAL)" using True by simp
    ultimately show ?thesis by (intro exI [of _ "[]"]) simp
  next
    case False
    let ?st = "\<lparr>open_heap = [(manhattan_val start, 0, start)], g_cost = [start \<mapsto> 0],
                parent = Map.empty\<rparr>"
    have "astar_solve start 250000 = astar_loop 250000 ?st 0"
      using False
      by (simp add: astar_solve_def manhattan_val [OF sb] heappush_def del: astar_loop.simps)
    moreover have "\<exists>ms. astar_loop 250000 ?st 0 = Some (Inr (Some ms)) \<and>
        replay start ms = Inr (Some GOAL) \<and>
        (\<forall>ms'. replay start ms' = Inr (Some GOAL) \<longrightarrow> length ms \<le> length ms')"
      by (rule astar_loop_opt [OF sb ss _ tree_inv_init [OF sb] opt_inv_init]) simp_all
    ultimately show ?thesis by simp
  qed
next
  show "\<exists>ms. astar_solve [1, 2, 3, 4, 5, 6, 0, 7, 8] 250000 = Some (Inr (Some ms)) \<and> length ms = 2"
    using astar_ex1 by simp
qed

theorem solve_minimal_witness:
  "is_board [1, 2, 3, 4, 5, 6, 0, 7, 8] \<and> is_solvable_3x3 [1, 2, 3, 4, 5, 6, 0, 7, 8] \<and>
   (\<exists>ms. astar_solve [1, 2, 3, 4, 5, 6, 0, 7, 8] 250000 = Some (Inr (Some ms)) \<and>
         replay [1, 2, 3, 4, 5, 6, 0, 7, 8] ms = Inr (Some GOAL) \<and> length ms = 2)"
proof -
  from solve_minimal [of "[1, 2, 3, 4, 5, 6, 0, 7, 8]"] board_ex1 solvable_ex1
  obtain ms where ms: "astar_solve [1, 2, 3, 4, 5, 6, 0, 7, 8] 250000 = Some (Inr (Some ms))"
    "replay [1, 2, 3, 4, 5, 6, 0, 7, 8] ms = Inr (Some GOAL)" by blast
  then have "ms = [7, 8]" using astar_ex1 by simp
  then show ?thesis using ms board_ex1 solvable_ex1 by simp
qed

end
